theory Spec2Isabelle
  imports Complex_Main
begin

text \<open>
  A shallow embedding of the Library page (\<open>src/app/page.tsx\<close>): the extraction of a video
  identifier from a URL, the persisted layout store, the pointer and focus handlers of the
  component as a step function over the events of a browser session, and the style
  resolver. The definitions come first, the results about them after.
\<close>

section \<open>Media identifier extraction: \<open>getYouTubeId\<close>\<close>

text \<open>
  The source tries two regular expressions in order and returns capture group 1 of the
  first one that matches:
  \<^verbatim>\<open>/(?:youtube\.com\/watch\?v=|youtu\.be\/|youtube\.com\/embed\/)([^&\n?#]+)/\<close> and
  \<^verbatim>\<open>/youtube\.com\/shorts\/([^&\n?#]+)/\<close>.
  Each expression is an alternation of literal prefixes followed by a greedy, non-empty run
  of characters outside \<open>&\<close>, newline, \<open>?\<close>, \<open>#\<close>. \<open>String.prototype.match\<close> with a
  non-global expression returns the leftmost match; at one start position the alternatives
  are tried in the order written. A greedy class run that is non-empty never needs to
  backtrack, since nothing follows the group.
\<close>

definition idChar :: "char \<Rightarrow> bool" where
  \<comment> \<open>the character class \<^verbatim>\<open>[^&\n?#]\<close>\<close>
  "idChar c = (c \<noteq> CHR ''&'' \<and> c \<noteq> CHR 0x0A \<and> c \<noteq> CHR ''?'' \<and> c \<noteq> CHR ''#'')"

fun stripPrefix :: "string \<Rightarrow> string \<Rightarrow> string option" where
  "stripPrefix [] s = Some s"
| "stripPrefix (p # ps) [] = None"
| "stripPrefix (p # ps) (c # cs) = (if p = c then stripPrefix ps cs else None)"

fun matchAt :: "string list \<Rightarrow> string \<Rightarrow> string option" where
  \<comment> \<open>the expression anchored at the start of the string: the capture group, if it matches\<close>
  "matchAt [] s = None"
| "matchAt (alt # alts) s =
     (case stripPrefix alt s of
        None \<Rightarrow> matchAt alts s
      | Some rest \<Rightarrow>
          (if takeWhile idChar rest \<noteq> [] then Some (takeWhile idChar rest)
           else matchAt alts s))"

fun regexMatch :: "string list \<Rightarrow> string \<Rightarrow> string option" where
  \<comment> \<open>\<open>url.match(pattern)\<close>, reduced to \<open>match[1]\<close>: the leftmost start position that matches\<close>
  "regexMatch alts [] = matchAt alts []"
| "regexMatch alts (c # cs) =
     (case matchAt alts (c # cs) of
        Some m \<Rightarrow> Some m
      | None \<Rightarrow> regexMatch alts cs)"

definition pattern1 :: "string list" where
  "pattern1 = [''youtube.com/watch?v='', ''youtu.be/'', ''youtube.com/embed/'']"

definition pattern2 :: "string list" where
  "pattern2 = [''youtube.com/shorts/'']"

definition patterns :: "string list list" where
  "patterns = [pattern1, pattern2]"

fun firstMatch :: "string list list \<Rightarrow> string \<Rightarrow> string option" where
  \<comment> \<open>the \<open>for (const pattern of patterns)\<close> loop with its early return\<close>
  "firstMatch [] url = None"
| "firstMatch (p # ps) url =
     (case regexMatch p url of Some m \<Rightarrow> Some m | None \<Rightarrow> firstMatch ps url)"

definition getYouTubeId :: "string \<Rightarrow> string option" where
  "getYouTubeId url = firstMatch patterns url"

fun occursIn :: "string \<Rightarrow> string \<Rightarrow> bool" where
  \<comment> \<open>\<open>occursIn lit s\<close>: the literal occurs somewhere in \<open>s\<close> (used to state "known URL shape")\<close>
  "occursIn lit [] = (stripPrefix lit [] \<noteq> None)"
| "occursIn lit (c # cs) = (stripPrefix lit (c # cs) \<noteq> None \<or> occursIn lit cs)"

definition knownShape :: "string \<Rightarrow> bool" where
  "knownShape url = (\<exists>lit \<in> set (concat patterns). occursIn lit url)"

section \<open>Data model\<close>

text \<open>
  A JavaScript number is modelled by an exact rational: the decimal number that the
  language prints for it. Every value of the program (a pixel coordinate, a z-index, the
  counter) is such a number; sums and differences are exact, so the rounding and the
  overflow of IEEE doubles are outside the embedding. A card's rotation angle, which is
  multiplied by 0.3, is a real.
  Field names that clash with HOL constants are renamed: \<open>id\<close>, \<open>type\<close>, \<open>top\<close>,
  \<open>left\<close>, \<open>right\<close>, \<open>width\<close>, \<open>rotate\<close>, \<open>z\<close> of a fragment carry the prefix \<open>f\<close>;
  \<open>x\<close>, \<open>y\<close> of a position are \<open>posX\<close>, \<open>posY\<close>.
\<close>

type_synonym number = rat

record Position =
  posX :: number
  posY :: number

record Fragment =
  fid :: nat
  ftype :: string
  url :: "string option"
  ftop :: string
  fleft :: "string option"
  fright :: "string option"
  fwidth :: string
  frotate :: real
  fz :: number

text \<open>
  The static dataset, in source order. The presentational fields (\<open>text\<close>, \<open>author\<close>,
  \<open>title\<close>, \<open>tape\<close>, \<open>pin\<close>, \<open>fontSize\<close>) are read by the markup only and are left out.
\<close>

definition fragments :: "Fragment list" where
  "fragments =
    [\<lparr>fid = 11, ftype = ''manila'', url = None, ftop = ''2%'', fleft = Some ''5%'',
       fright = None, fwidth = ''240px'', frotate = 2.5, fz = 6\<rparr>,
     \<lparr>fid = 18, ftype = ''aged-paper'', url = None, ftop = ''3%'', fleft = None,
       fright = Some ''5%'', fwidth = ''280px'', frotate = -1.5, fz = 6\<rparr>,
     \<lparr>fid = 19, ftype = ''typewriter'', url = None, ftop = ''16%'', fleft = Some ''5%'',
       fright = None, fwidth = ''240px'', frotate = 1.2, fz = 5\<rparr>,
     \<lparr>fid = 13, ftype = ''media'',
       url = Some ''https://www.youtube.com/watch?v=EUo0ncJX19A'', ftop = ''18%'',
       fleft = None, fright = Some ''5%'', fwidth = ''180px'', frotate = -2.5, fz = 10\<rparr>,
     \<lparr>fid = 22, ftype = ''notebook'', url = None, ftop = ''32%'', fleft = Some ''5%'',
       fright = None, fwidth = ''220px'', frotate = 1.5, fz = 6\<rparr>,
     \<lparr>fid = 20, ftype = ''legal-pad'', url = None, ftop = ''44%'', fleft = Some ''3%'',
       fright = None, fwidth = ''320px'', frotate = 0.8, fz = 7\<rparr>,
     \<lparr>fid = 21, ftype = ''torn-scrap'', url = None, ftop = ''46%'', fleft = None,
       fright = Some ''5%'', fwidth = ''300px'', frotate = -2, fz = 8\<rparr>]"

definition cardIds :: "nat list" where
  "cardIds = map fid fragments"

text \<open>
  \<open>Record<number, T>\<close>: a JavaScript object whose keys are array indexes. Such an
  object enumerates its keys in ascending numeric order whatever the insertion order, so
  it is an association list kept in ascending key order. \<open>objSet k v obj\<close> is the spread
  \<open>{ ...obj, [k]: v }\<close>; \<open>map_of obj k\<close> is the read \<open>obj[k]\<close>.
\<close>

fun objSet :: "nat \<Rightarrow> 'v \<Rightarrow> (nat \<times> 'v) list \<Rightarrow> (nat \<times> 'v) list" where
  "objSet k v [] = [(k, v)]"
| "objSet k v ((k', v') # kvs) =
     (if k = k' then (k, v) # kvs
      else if k < k' then (k, v) # (k', v') # kvs
      else (k', v') # objSet k v kvs)"

record LayoutData =
  positions :: "(nat \<times> Position) list"
  zIndexes :: "(nat \<times> number) list"
  maxZ :: number

definition keysAscending :: "(nat \<times> 'v) list \<Rightarrow> bool" where
  "keysAscending obj = sorted_wrt (<) (map fst obj)"

definition wellFormed :: "LayoutData \<Rightarrow> bool" where
  \<comment> \<open>the representation invariant of the two objects\<close>
  "wellFormed d = (keysAscending (positions d) \<and> keysAscending (zIndexes d))"

definition layoutInv :: "LayoutData \<Rightarrow> bool" where
  \<comment> \<open>the invariant the data model states for a LayoutState\<close>
  "layoutInv d =
     (list_all (\<lambda>k. k \<in> set cardIds) (map fst (positions d))
      \<and> list_all (\<lambda>k. k \<in> set cardIds) (map fst (zIndexes d))
      \<and> list_all (\<lambda>v. v \<le> maxZ d) (map snd (zIndexes d)))"

section \<open>JSON text of a layout\<close>

text \<open>
  \<open>JSON.stringify\<close> and \<open>JSON.parse\<close> are built-ins of the language. The values are
  \<open>null\<close>, booleans, numbers, strings, arrays and objects. A number is printed as
  \<open>Number::toString\<close> prints it and read by the number grammar of JSON, with fraction and
  exponent; a numeral is read as the decimal it writes, also when it has more digits than
  a double holds. Whitespace is allowed between the tokens of a text. String escapes are not
  modelled: a text with a backslash inside a string is reported as a syntax error, and a
  key is printed without escaping (the keys of a layout are field names and decimal
  numerals). A control character inside a string is a syntax error, as in the language.
\<close>

datatype json =
  JNull
  | JBool bool
  | JNum number
  | JStr string
  | JArr "json list"
  | JObj "(string \<times> json) list"

definition digitChar :: "nat \<Rightarrow> char" where
  "digitChar d = char_of (48 + d)"

definition isDigit :: "char \<Rightarrow> bool" where
  "isDigit c = (48 \<le> (of_char c :: nat) \<and> (of_char c :: nat) \<le> 57)"

definition digitVal :: "char \<Rightarrow> nat" where
  "digitVal c = of_char c - 48"

function digitsOf :: "nat \<Rightarrow> string" where
  "digitsOf n = (if n < 10 then [digitChar n] else digitsOf (n div 10) @ [digitChar (n mod 10)])"
  by pat_completeness auto
termination
  by (relation "measure id") auto

declare digitsOf.simps [simp del]

subsection \<open>Printing a number\<close>

text \<open>
  \<open>Number::toString\<close> takes the decimal digits \<open>s\<close> of the number (\<open>k\<close> digits, the last
  one not zero) and the position \<open>n\<close> of the decimal point, so that the number is
  \<open>s \<times> 10^(n - k)\<close>, and chooses between plain and exponent notation by \<open>n\<close>.
  \<open>fractionDigits\<close> finds the least number of fraction digits that writes the number
  exactly, searching up to \<open>maxFractionDigits\<close> (the decimal that prints a double never
  needs more than 340). A number with no such expansion is not a value of the program;
  it is printed \<open>null\<close>, as \<open>JSON.stringify\<close> prints a non-finite number.
\<close>

definition isInt :: "number \<Rightarrow> bool" where
  "isInt x = (x = of_int \<lfloor>x\<rfloor>)"

fun fractionDigits :: "nat \<Rightarrow> number \<Rightarrow> nat option" where
  "fractionDigits 0 x = (if isInt x then Some 0 else None)"
| "fractionDigits (Suc fuel) x =
     (if isInt x then Some 0 else map_option Suc (fractionDigits fuel (x * 10)))"

definition maxFractionDigits :: nat where
  "maxFractionDigits = 400"

definition stripZeros :: "string \<Rightarrow> string" where
  \<comment> \<open>the digits without their trailing zeros\<close>
  "stripZeros ds = rev (dropWhile (\<lambda>c. c = CHR ''0'') (rev ds))"

definition exponentPart :: "int \<Rightarrow> string" where
  "exponentPart ex =
     CHR ''e'' # (if ex < 0 then CHR ''-'' else CHR ''+'') # digitsOf (nat \<bar>ex\<bar>)"

definition formatDigits :: "string \<Rightarrow> int \<Rightarrow> string" where
  "formatDigits s n =
     (let k = int (length s) in
      if k \<le> n \<and> n \<le> 21 then s @ replicate (nat (n - k)) CHR ''0''
      else if 0 < n \<and> n \<le> 21 then take (nat n) s @ CHR ''.'' # drop (nat n) s
      else if - 6 < n \<and> n \<le> 0 then ''0.'' @ replicate (nat (- n)) CHR ''0'' @ s
      else if k = 1 then s @ exponentPart (n - 1)
      else hd s # CHR ''.'' # tl s @ exponentPart (n - 1))"

definition showPositive :: "nat \<Rightarrow> number \<Rightarrow> string" where
  \<comment> \<open>a positive number that \<open>e\<close> fraction digits write exactly\<close>
  "showPositive e x =
     (let ds = digitsOf (nat \<lfloor>x * 10 ^ e\<rfloor>) in
      formatDigits (stripZeros ds) (int (length ds) - int e))"

definition showNumber :: "number \<Rightarrow> string" where
  "showNumber x =
     (case fractionDigits maxFractionDigits \<bar>x\<bar> of
        None \<Rightarrow> ''null''
      | Some e \<Rightarrow>
          (if x = 0 then ''0''
           else if x < 0 then CHR ''-'' # showPositive e (- x)
           else showPositive e x))"

subsection \<open>Printing a value\<close>

definition quoteKey :: "string \<Rightarrow> string" where
  "quoteKey k = CHR 0x22 # k @ [CHR 0x22]"

fun stringify :: "json \<Rightarrow> string"
  and stringifyElements :: "json list \<Rightarrow> string"
  and stringifyMembers :: "(string \<times> json) list \<Rightarrow> string" where
  "stringify JNull = ''null''"
| "stringify (JBool b) = (if b then ''true'' else ''false'')"
| "stringify (JNum n) = showNumber n"
| "stringify (JStr s) = quoteKey s"
| "stringify (JArr vs) = CHR ''['' # stringifyElements vs @ '']''"
| "stringify (JObj ms) = CHR ''{'' # stringifyMembers ms @ ''}''"
| "stringifyElements [] = []"
| "stringifyElements (v # vs) =
     stringify v @ (if vs = [] then [] else CHR '','' # stringifyElements vs)"
| "stringifyMembers [] = []"
| "stringifyMembers ((k, v) # ms) =
     quoteKey k @ CHR '':'' # stringify v @ (if ms = [] then [] else CHR '','' # stringifyMembers ms)"

definition positionToJson :: "Position \<Rightarrow> json" where
  "positionToJson p = JObj [(''x'', JNum (posX p)), (''y'', JNum (posY p))]"

definition recordToJson :: "('v \<Rightarrow> json) \<Rightarrow> (nat \<times> 'v) list \<Rightarrow> json" where
  "recordToJson f obj = JObj (map (\<lambda>(k, v). (digitsOf k, f v)) obj)"

definition layoutToJson :: "LayoutData \<Rightarrow> json" where
  "layoutToJson d =
     JObj [(''positions'', recordToJson positionToJson (positions d)),
           (''zIndexes'', recordToJson JNum (zIndexes d)),
           (''maxZ'', JNum (maxZ d))]"

definition JSON_stringify :: "LayoutData \<Rightarrow> string" where
  "JSON_stringify d = stringify (layoutToJson d)"

subsection \<open>Reading a number\<close>

datatype error = QuotaExceededError | SecurityError | SyntaxError

definition natOfDigits :: "string \<Rightarrow> nat" where
  "natOfDigits ds = foldl (\<lambda>a c. 10 * a + digitVal c) 0 ds"

definition parseDigits :: "string \<Rightarrow> (nat \<times> string) option" where
  \<comment> \<open>\<open>0\<close> or a digit run without a leading zero: the integer part of a number, and the
     canonical numeral of an index key\<close>
  "parseDigits s =
     (let ds = takeWhile isDigit s in
      if ds = [] then None
      else if hd ds = CHR ''0'' \<and> tl ds \<noteq> [] then None
      else Some (natOfDigits ds, dropWhile isDigit s))"

definition parseFraction :: "string \<Rightarrow> (string \<times> string) option" where
  \<comment> \<open>the optional fraction: a point and at least one digit; the result is its digits\<close>
  "parseFraction s =
     (case stripPrefix ''.'' s of
        None \<Rightarrow> Some ([], s)
      | Some r \<Rightarrow>
          (if takeWhile isDigit r = [] then None
           else Some (takeWhile isDigit r, dropWhile isDigit r)))"

definition parseSign :: "string \<Rightarrow> bool \<times> string" where
  \<comment> \<open>the optional sign of an exponent; \<open>True\<close> for minus\<close>
  "parseSign s =
     (case stripPrefix ''-'' s of
        Some r \<Rightarrow> (True, r)
      | None \<Rightarrow> (case stripPrefix ''+'' s of Some r \<Rightarrow> (False, r) | None \<Rightarrow> (False, s)))"

definition parseExponent :: "string \<Rightarrow> (int \<times> string) option" where
  \<comment> \<open>the optional exponent: \<open>e\<close> or \<open>E\<close>, an optional sign and at least one digit\<close>
  "parseExponent s =
     (case (case stripPrefix ''e'' s of Some r \<Rightarrow> Some r | None \<Rightarrow> stripPrefix ''E'' s) of
        None \<Rightarrow> Some (0, s)
      | Some r \<Rightarrow>
          (let (minus, r1) = parseSign r; ds = takeWhile isDigit r1 in
           if ds = [] then None
           else Some (if minus then - int (natOfDigits ds) else int (natOfDigits ds),
                      dropWhile isDigit r1)))"

definition scale10 :: "number \<Rightarrow> int \<Rightarrow> number" where
  \<comment> \<open>\<open>x \<times> 10^z\<close> for an integer \<open>z\<close>\<close>
  "scale10 x z = (if 0 \<le> z then x * 10 ^ nat z else x / 10 ^ nat (- z))"

definition parseUnsigned :: "string \<Rightarrow> (number \<times> string) option" where
  "parseUnsigned s =
     (case parseDigits s of
        None \<Rightarrow> None
      | Some (ip, r) \<Rightarrow>
          (case parseFraction r of
             None \<Rightarrow> None
           | Some (fp, r1) \<Rightarrow>
               (case parseExponent r1 of
                  None \<Rightarrow> None
                | Some (ex, r2) \<Rightarrow>
                    Some (scale10 (of_nat (ip * 10 ^ length fp + natOfDigits fp))
                            (ex - int (length fp)), r2))))"

definition parseNumber :: "string \<Rightarrow> (json \<times> string) option" where
  "parseNumber s =
     (case stripPrefix ''-'' s of
        Some rest \<Rightarrow> map_option (\<lambda>(x, r). (JNum (- x), r)) (parseUnsigned rest)
      | None \<Rightarrow> map_option (\<lambda>(x, r). (JNum x, r)) (parseUnsigned s))"

subsection \<open>Reading a value\<close>

definition plainChar :: "char \<Rightarrow> bool" where
  \<comment> \<open>a character that a string literal holds as it is: not the quote, not a backslash,
     not a control character\<close>
  "plainChar c = (c \<noteq> CHR 0x22 \<and> c \<noteq> CHR 0x5C \<and> 32 \<le> (of_char c :: nat))"

definition parseString :: "string \<Rightarrow> (string \<times> string) option" where
  "parseString s =
     (case stripPrefix [CHR 0x22] s of
        None \<Rightarrow> None
      | Some r \<Rightarrow>
          (case stripPrefix [CHR 0x22] (dropWhile plainChar r) of
             None \<Rightarrow> None
           | Some r' \<Rightarrow> Some (takeWhile plainChar r, r')))"

definition isWs :: "char \<Rightarrow> bool" where
  \<comment> \<open>the whitespace of JSON: space, tab, line feed, carriage return\<close>
  "isWs c = (c = CHR '' '' \<or> c = CHR 0x09 \<or> c = CHR 0x0A \<or> c = CHR 0x0D)"

definition skipWs :: "string \<Rightarrow> string" where
  "skipWs s = dropWhile isWs s"

text \<open>
  The recursive-descent parser carries fuel; each call consumes at least one character,
  so the length of the text is enough fuel (\<open>JSON_parse\<close>). A parser returns the text after
  what it has read, with the whitespace before it skipped.
\<close>

fun parseValue :: "nat \<Rightarrow> string \<Rightarrow> (json \<times> string) option"
  and parseElements :: "nat \<Rightarrow> string \<Rightarrow> (json list \<times> string) option"
  and parseMembers :: "nat \<Rightarrow> string \<Rightarrow> ((string \<times> json) list \<times> string) option" where
  "parseValue 0 s = None"
| "parseValue (Suc n) s =
     (case stripPrefix ''null'' (skipWs s) of
        Some rest \<Rightarrow> Some (JNull, rest)
      | None \<Rightarrow>
     (case stripPrefix ''true'' (skipWs s) of
        Some rest \<Rightarrow> Some (JBool True, rest)
      | None \<Rightarrow>
     (case stripPrefix ''false'' (skipWs s) of
        Some rest \<Rightarrow> Some (JBool False, rest)
      | None \<Rightarrow>
     (case stripPrefix [CHR 0x22] (skipWs s) of
        Some rest \<Rightarrow> map_option (\<lambda>(t, r). (JStr t, r)) (parseString (skipWs s))
      | None \<Rightarrow>
     (case stripPrefix ''['' (skipWs s) of
        Some rest \<Rightarrow>
          (case stripPrefix '']'' (skipWs rest) of
             Some rest1 \<Rightarrow> Some (JArr [], rest1)
           | None \<Rightarrow>
               (case parseElements n rest of
                  None \<Rightarrow> None
                | Some (vs, rest1) \<Rightarrow>
                    (case stripPrefix '']'' rest1 of
                       None \<Rightarrow> None
                     | Some rest2 \<Rightarrow> Some (JArr vs, rest2))))
      | None \<Rightarrow>
     (case stripPrefix ''{'' (skipWs s) of
        Some rest \<Rightarrow>
          (case stripPrefix ''}'' (skipWs rest) of
             Some rest1 \<Rightarrow> Some (JObj [], rest1)
           | None \<Rightarrow>
               (case parseMembers n rest of
                  None \<Rightarrow> None
                | Some (ms, rest1) \<Rightarrow>
                    (case stripPrefix ''}'' rest1 of
                       None \<Rightarrow> None
                     | Some rest2 \<Rightarrow> Some (JObj ms, rest2))))
      | None \<Rightarrow> parseNumber (skipWs s)))))))"
| "parseElements 0 s = None"
| "parseElements (Suc n) s =
     (case parseValue n s of
        None \<Rightarrow> None
      | Some (v, r) \<Rightarrow>
          (case stripPrefix '','' (skipWs r) of
             None \<Rightarrow> Some ([v], skipWs r)
           | Some r1 \<Rightarrow>
               (case parseElements n r1 of
                  None \<Rightarrow> None
                | Some (vs, r2) \<Rightarrow> Some (v # vs, r2))))"
| "parseMembers 0 s = None"
| "parseMembers (Suc n) s =
     (case parseString (skipWs s) of
        None \<Rightarrow> None
      | Some (k, r) \<Rightarrow>
          (case stripPrefix '':'' (skipWs r) of
             None \<Rightarrow> None
           | Some r1 \<Rightarrow>
               (case parseValue n r1 of
                  None \<Rightarrow> None
                | Some (v, r2) \<Rightarrow>
                    (case stripPrefix '','' (skipWs r2) of
                       None \<Rightarrow> Some ([(k, v)], skipWs r2)
                     | Some r3 \<Rightarrow>
                         (case parseMembers n r3 of
                            None \<Rightarrow> None
                          | Some (ms, r4) \<Rightarrow> Some ((k, v) # ms, r4))))))"

definition JSON_parse :: "string \<Rightarrow> error + json" where
  "JSON_parse s =
     (case parseValue (Suc (length s)) s of
        None \<Rightarrow> Inl SyntaxError
      | Some (v, r) \<Rightarrow> (if skipWs r = [] then Inr v else Inl SyntaxError))"

subsection \<open>The parsed value as the component reads it\<close>

text \<open>
  The source assigns the parsed value to a variable of type \<open>LayoutData\<close> without a check,
  and the component reads it by \<open>layout?.positions ?? {}\<close>, \<open>layout?.zIndexes ?? {}\<close> and
  \<open>layout?.maxZ ?? 20\<close>. \<open>asLayout\<close> is the parsed value under these reads: a missing or
  \<open>null\<close> field has its default, and so has every field of a value that is not an object;
  a number or boolean in the place of a mapping has no entries. Property lookup takes the
  last occurrence of a key (a parsed object keeps the last duplicate), and index keys are
  canonical decimal numerals. A value with an entry of the wrong type (a position that is
  not an object with numbers \<open>x\<close> and \<open>y\<close>, a key that is not a card index, a string or
  array in the place of a mapping, a \<open>maxZ\<close> that is not a number) is outside the type
  \<open>LayoutData\<close>; the model maps it to \<open>None\<close>.
\<close>

definition field :: "string \<Rightarrow> (string \<times> json) list \<Rightarrow> json option" where
  "field k ms = map_of (rev ms) k"

definition asNumber :: "json \<Rightarrow> number option" where
  "asNumber j = (case j of JNum n \<Rightarrow> Some n | _ \<Rightarrow> None)"

definition asPosition :: "json \<Rightarrow> Position option" where
  "asPosition j =
     (case j of
        JObj ms \<Rightarrow>
          (case (Option.bind (field ''x'' ms) asNumber, Option.bind (field ''y'' ms) asNumber) of
             (Some a, Some b) \<Rightarrow> Some \<lparr>posX = a, posY = b\<rparr>
           | _ \<Rightarrow> None)
      | _ \<Rightarrow> None)"

definition asIndex :: "string \<Rightarrow> nat option" where
  "asIndex k =
     (case parseDigits k of
        Some (n, []) \<Rightarrow> Some n
      | _ \<Rightarrow> None)"

fun asMembers :: "(json \<Rightarrow> 'v option) \<Rightarrow> (string \<times> json) list \<Rightarrow> (nat \<times> 'v) list option" where
  "asMembers f [] = Some []"
| "asMembers f ((k, j) # ms) =
     (case (asIndex k, f j, asMembers f ms) of
        (Some n, Some v, Some obj) \<Rightarrow> Some ((n, v) # obj)
      | _ \<Rightarrow> None)"

definition asRecord :: "(json \<Rightarrow> 'v option) \<Rightarrow> json option \<Rightarrow> (nat \<times> 'v) list option" where
  \<comment> \<open>a field read by \<open>?? {}\<close>\<close>
  "asRecord f jo =
     (case jo of
        None \<Rightarrow> Some []
      | Some JNull \<Rightarrow> Some []
      | Some (JBool b) \<Rightarrow> Some []
      | Some (JNum x) \<Rightarrow> Some []
      | Some (JStr t) \<Rightarrow> None
      | Some (JArr vs) \<Rightarrow> None
      | Some (JObj ms) \<Rightarrow>
          map_option (\<lambda>kvs. fold (\<lambda>(k, v). objSet k v) kvs []) (asMembers f ms))"

definition asMaxZ :: "json option \<Rightarrow> number option" where
  \<comment> \<open>the field read by \<open>?? 20\<close>\<close>
  "asMaxZ jo =
     (case jo of
        None \<Rightarrow> Some 20
      | Some JNull \<Rightarrow> Some 20
      | Some (JNum x) \<Rightarrow> Some x
      | Some _ \<Rightarrow> None)"

definition asLayout :: "json \<Rightarrow> LayoutData option" where
  "asLayout j =
     (case j of
        JNull \<Rightarrow> None
      | JObj ms \<Rightarrow>
          (case (asRecord asPosition (field ''positions'' ms),
                 asRecord asNumber (field ''zIndexes'' ms),
                 asMaxZ (field ''maxZ'' ms)) of
             (Some p, Some z, Some m) \<Rightarrow> Some \<lparr>positions = p, zIndexes = z, maxZ = m\<rparr>
           | _ \<Rightarrow> None)
      | _ \<Rightarrow> Some \<lparr>positions = [], zIndexes = [], maxZ = 20\<rparr>)"

section \<open>Layout store\<close>

text \<open>
  \<open>localStorage\<close>: the stored items, and the two ways an access can fail. With storage
  disabled every access raises; a write raises when the text does not fit in \<open>quota\<close>
  characters.
\<close>

record LocalStorage =
  items :: "string \<Rightarrow> string option"
  quota :: nat
  disabled :: bool

definition getItem :: "string \<Rightarrow> LocalStorage \<Rightarrow> error + string option" where
  "getItem k ls = (if disabled ls then Inl SecurityError else Inr (items ls k))"

definition setItem :: "string \<Rightarrow> string \<Rightarrow> LocalStorage \<Rightarrow> error + LocalStorage" where
  "setItem k v ls =
     (if disabled ls then Inl SecurityError
      else if quota ls < length v then Inl QuotaExceededError
      else Inr (ls\<lparr>items := (items ls)(k \<mapsto> v)\<rparr>))"

record Snapshot =
  snapData :: "LayoutData option"
  snapIsLoaded :: bool

text \<open>
  The closure variables of the store. A listener is identified by a number; \<open>listeners\<close>
  is the insertion-ordered \<open>Set\<close>. \<open>notified\<close> is an observation log added by the model: one
  entry per call of a listener, with the snapshot that \<open>getSnapshot\<close> returns during the call.
  A listener is taken not to raise: the only subscriber of the program is the callback that
  \<open>useSyncExternalStore\<close> registers. (A raise inside \<open>forEach\<close> would be caught by the
  same \<open>catch\<close>.) \<open>JSON.stringify\<close> of a \<open>LayoutData\<close> does not raise.
\<close>

record LayoutStore =
  listeners :: "nat list"
  data :: "LayoutData option"
  isLoaded :: bool
  snapshot :: Snapshot
  localStorage :: LocalStorage
  notified :: "(nat \<times> Snapshot) list"

definition serverSnapshot :: Snapshot where
  "serverSnapshot = \<lparr>snapData = None, snapIsLoaded = False\<rparr>"

definition loadData :: "LocalStorage \<Rightarrow> error + LayoutData option" where
  \<comment> \<open>\<open>JSON.parse(localStorage.getItem("library-layout") || "null")\<close>\<close>
  "loadData ls =
     (case getItem ''library-layout'' ls of
        Inl e \<Rightarrow> Inl e
      | Inr got \<Rightarrow>
          (case JSON_parse (case got of None \<Rightarrow> ''null'' | Some s \<Rightarrow> if s = [] then ''null'' else s) of
             Inl e \<Rightarrow> Inl e
           | Inr j \<Rightarrow> Inr (asLayout j)))"

definition layoutStore :: "bool \<Rightarrow> LocalStorage \<Rightarrow> LayoutStore" where
  \<comment> \<open>the module initialiser; \<open>window\<close> says whether \<open>typeof window !== "undefined"\<close>\<close>
  "layoutStore window ls =
     (if window then
        (let d = (case loadData ls of Inl e \<Rightarrow> None | Inr v \<Rightarrow> v) in
         \<lparr>listeners = [], data = d, isLoaded = True,
          snapshot = \<lparr>snapData = d, snapIsLoaded = True\<rparr>,
          localStorage = ls, notified = []\<rparr>)
      else
        \<lparr>listeners = [], data = None, isLoaded = False,
         snapshot = \<lparr>snapData = None, snapIsLoaded = False\<rparr>,
         localStorage = ls, notified = []\<rparr>)"

definition subscribe :: "nat \<Rightarrow> LayoutStore \<Rightarrow> LayoutStore" where
  "subscribe cb st = st\<lparr>listeners := (if cb \<in> set (listeners st) then listeners st else listeners st @ [cb])\<rparr>"

definition unsubscribe :: "nat \<Rightarrow> LayoutStore \<Rightarrow> LayoutStore" where
  "unsubscribe cb st = st\<lparr>listeners := removeAll cb (listeners st)\<rparr>"

definition getSnapshot :: "LayoutStore \<Rightarrow> Snapshot" where
  "getSnapshot st = snapshot st"

definition trySave :: "LayoutData \<Rightarrow> LayoutStore \<Rightarrow> error + LayoutStore" where
  \<comment> \<open>the body of the \<open>try\<close> block of \<open>save\<close>\<close>
  "trySave newData st =
     (case setItem ''library-layout'' (JSON_stringify newData) (localStorage st) of
        Inl e \<Rightarrow> Inl e
      | Inr ls \<Rightarrow>
          (let snap = \<lparr>snapData = Some newData, snapIsLoaded = isLoaded st\<rparr> in
           Inr (st\<lparr>localStorage := ls, data := Some newData, snapshot := snap,
                   notified := notified st @ map (\<lambda>cb. (cb, snap)) (listeners st)\<rparr>)))"

definition save :: "LayoutData \<Rightarrow> LayoutStore \<Rightarrow> error + LayoutStore" where
  \<comment> \<open>\<open>try { ... } catch {}\<close>: a result \<open>Inl\<close> would be an exception that reaches the caller\<close>
  "save newData st = (case trySave newData st of Inl e \<Rightarrow> Inr st | Inr st' \<Rightarrow> Inr st')"

section \<open>The component\<close>

datatype Phase = Idle | Opening | Open | Closing

record DragStart =
  startX :: number
  startY :: number
  elemX :: number
  elemY :: number

record DOMRect =
  rectLeft :: number
  rectTop :: number

text \<open>
  A pointer event is a mouse event with its client coordinates or a touch event with its
  list of touches; a \<open>touchstart\<close> or \<open>touchmove\<close> event has at least one touch, and the
  handlers read the first.
\<close>

datatype PointerEvent =
  MouseEvent number number
  | TouchEvent "number \<times> number" "(number \<times> number) list"

fun clientX :: "PointerEvent \<Rightarrow> number" where
  "clientX (MouseEvent cx cy) = cx"
| "clientX (TouchEvent t ts) = fst t"

fun clientY :: "PointerEvent \<Rightarrow> number" where
  "clientY (MouseEvent cx cy) = cy"
| "clientY (TouchEvent t ts) = snd t"

text \<open>
  The state of the mounted component: the store it is subscribed to, its React state and
  refs, and the callbacks it has scheduled. Every \<open>setTimeout\<close> callback of the source has
  the same body, and so has every \<open>requestAnimationFrame\<close> callback, so \<open>timeouts\<close> keeps
  the due times (in milliseconds of \<open>clock\<close>) and \<open>frameRequests\<close> the number of pending
  frame callbacks. Handlers are modelled on the values of the latest render.
\<close>

record Library =
  store :: LayoutStore
  focusedId :: "nat option"
  focusOrigin :: "Position option"
  focusPhase :: Phase
  draggingId :: "nat option"
  dragPos :: "Position option"
  dragStartRef :: "DragStart option"
  didDragRef :: bool
  maxZRef :: number
  clock :: nat
  timeouts :: "nat list"
  frameRequests :: nat

definition layout :: "Library \<Rightarrow> LayoutData option" where
  "layout s = snapData (getSnapshot (store s))"

definition positionsOf :: "Library \<Rightarrow> (nat \<times> Position) list" where
  \<comment> \<open>\<open>layout?.positions ?? {}\<close>\<close>
  "positionsOf s = (case layout s of None \<Rightarrow> [] | Some l \<Rightarrow> positions l)"

definition zIndexesOf :: "Library \<Rightarrow> (nat \<times> number) list" where
  \<comment> \<open>\<open>layout?.zIndexes ?? {}\<close>\<close>
  "zIndexesOf s = (case layout s of None \<Rightarrow> [] | Some l \<Rightarrow> zIndexes l)"

definition mount :: "Snapshot \<Rightarrow> LayoutStore \<Rightarrow> Library" where
  \<comment> \<open>the first render; \<open>first\<close> is the snapshot that render reads, which initialises \<open>maxZRef\<close>
     by \<open>useRef(layout?.maxZ ?? 20)\<close>\<close>
  "mount first st =
     \<lparr>store = subscribe 0 st, focusedId = None, focusOrigin = None, focusPhase = Idle,
      draggingId = None, dragPos = None, dragStartRef = None, didDragRef = False,
      maxZRef = (case snapData first of None \<Rightarrow> 20 | Some l \<Rightarrow> maxZ l),
      clock = 0, timeouts = [], frameRequests = 0\<rparr>"

definition persistLayout ::
  "(nat \<times> Position) list \<Rightarrow> (nat \<times> number) list \<Rightarrow> number \<Rightarrow> Library \<Rightarrow> error + Library" where
  "persistLayout newPositions newZIndexes newMaxZ s =
     (case save \<lparr>positions = newPositions, zIndexes = newZIndexes, maxZ = newMaxZ\<rparr> (store s) of
        Inl e \<Rightarrow> Inl e
      | Inr st \<Rightarrow> Inr (s\<lparr>maxZRef := newMaxZ, store := st\<rparr>))"

definition handleMove :: "PointerEvent \<Rightarrow> Library \<Rightarrow> Library" where
  "handleMove e s =
     (case dragStartRef s of
        None \<Rightarrow> s
      | Some d \<Rightarrow>
          (let dx = clientX e - startX d; dy = clientY e - startY d in
           s\<lparr>didDragRef := (if \<bar>dx\<bar> > 3 \<or> \<bar>dy\<bar> > 3 then True else didDragRef s),
             dragPos := Some \<lparr>posX = elemX d + dx, posY = elemY d + dy\<rparr>\<rparr>))"

definition endDrag :: "Library \<Rightarrow> Library" where
  \<comment> \<open>the last three statements of \<open>handleEnd\<close>\<close>
  "endDrag s = s\<lparr>draggingId := None, dragPos := None, dragStartRef := None\<rparr>"

definition handleEnd :: "Library \<Rightarrow> error + Library" where
  "handleEnd s =
     (case (draggingId s, dragPos s) of
        (Some i, Some p) \<Rightarrow>
          (let newMaxZ = maxZRef s + 1 in
           case persistLayout (objSet i p (positionsOf s)) (objSet i newMaxZ (zIndexesOf s)) newMaxZ s of
             Inl e \<Rightarrow> Inl e
           | Inr s' \<Rightarrow> Inr (endDrag s'))
      | _ \<Rightarrow> Inr (endDrag s))"

definition handlePointerDown :: "nat \<Rightarrow> PointerEvent \<Rightarrow> DOMRect \<Rightarrow> Library \<Rightarrow> error + Library" where
  "handlePointerDown i e rect s =
     (let s1 = s\<lparr>didDragRef := False,
                 dragStartRef := Some \<lparr>startX = clientX e, startY = clientY e,
                                       elemX = rectLeft rect, elemY = rectTop rect\<rparr>,
                 draggingId := Some i,
                 dragPos := Some \<lparr>posX = rectLeft rect, posY = rectTop rect\<rparr>\<rparr>;
          newMaxZ = maxZRef s + 1
      in persistLayout (positionsOf s) (objSet i newMaxZ (zIndexesOf s)) newMaxZ s1)"

definition closeCallback :: "Library \<Rightarrow> Library" where
  \<comment> \<open>the callback given to \<open>setTimeout\<close>\<close>
  "closeCallback s = s\<lparr>focusedId := None, focusOrigin := None, focusPhase := Idle\<rparr>"

definition openCallback :: "Library \<Rightarrow> Library" where
  \<comment> \<open>the callback given to \<open>requestAnimationFrame\<close>\<close>
  "openCallback s = s\<lparr>focusPhase := Open\<rparr>"

definition handleClick :: "nat \<Rightarrow> DOMRect \<Rightarrow> Library \<Rightarrow> Library" where
  "handleClick i rect s =
     (if didDragRef s then s\<lparr>didDragRef := False\<rparr>
      else if focusedId s = Some i then
        s\<lparr>focusPhase := Closing, timeouts := timeouts s @ [clock s + 450]\<rparr>
      else
        s\<lparr>focusOrigin := Some \<lparr>posX = rectLeft rect, posY = rectTop rect\<rparr>,
          focusedId := Some i, focusPhase := Opening,
          frameRequests := frameRequests s + 1\<rparr>)"

definition closeFocus :: "Library \<Rightarrow> Library" where
  "closeFocus s =
     (if focusedId s \<noteq> None then
        s\<lparr>focusPhase := Closing, timeouts := timeouts s @ [clock s + 450]\<rparr>
      else s)"

definition animationFrame :: "Library \<Rightarrow> Library" where
  \<comment> \<open>the browser runs the pending frame callbacks\<close>
  "animationFrame s = ((openCallback ^^ frameRequests s) s)\<lparr>frameRequests := 0\<rparr>"

definition elapse :: "nat \<Rightarrow> Library \<Rightarrow> Library" where
  \<comment> \<open>\<open>t\<close> milliseconds pass; the timers that have come due run\<close>
  "elapse t s =
     (let now = clock s + t in
      (fold (\<lambda>d. closeCallback) (filter (\<lambda>d. d \<le> now) (timeouts s)) s)
        \<lparr>clock := now, timeouts := filter (\<lambda>d. \<not> d \<le> now) (timeouts s)\<rparr>)"

text \<open>
  The events the rendered surface and the window deliver. A card's \<open>onMouseDown\<close> and
  \<open>onTouchStart\<close> call \<open>handlePointerDown\<close> unless the card is focused; the window's move
  and end listeners exist only while \<open>draggingId\<close> is set.
\<close>

datatype event =
  PointerDown Fragment PointerEvent DOMRect
  | PointerMove PointerEvent
  | PointerEnd
  | Click Fragment DOMRect
  | OverlayClick
  | AnimationFrame
  | Elapse nat

fun step :: "event \<Rightarrow> Library \<Rightarrow> error + Library" where
  "step (PointerDown item e rect) s =
     (if focusedId s = Some (fid item) then Inr s else handlePointerDown (fid item) e rect s)"
| "step (PointerMove e) s = (if draggingId s = None then Inr s else Inr (handleMove e s))"
| "step PointerEnd s = (if draggingId s = None then Inr s else handleEnd s)"
| "step (Click item rect) s = Inr (handleClick (fid item) rect s)"
| "step OverlayClick s = Inr (closeFocus s)"
| "step AnimationFrame s = Inr (animationFrame s)"
| "step (Elapse t) s = Inr (elapse t s)"

fun run :: "event list \<Rightarrow> Library \<Rightarrow> error + Library" where
  "run [] s = Inr s"
| "run (ev # evs) s = (case step ev s of Inl e \<Rightarrow> Inl e | Inr s' \<Rightarrow> run evs s')"

fun onCard :: "event \<Rightarrow> bool" where
  \<comment> \<open>card events come from the cards of the dataset, which the surface renders\<close>
  "onCard (PointerDown item e rect) = (item \<in> set fragments)"
| "onCard (Click item rect) = (item \<in> set fragments)"
| "onCard ev = True"

text \<open>
  The states a browser session can be in. The component mounts either during hydration of
  the server-rendered page, where its first render reads \<open>getServerSnapshot\<close>, or in a
  client-only render, where it reads \<open>getSnapshot\<close>.
\<close>

inductive reachable :: "Library \<Rightarrow> bool" where
  mounted_hydrating: "reachable (mount serverSnapshot (layoutStore True ls))"
| mounted_client: "reachable (mount (getSnapshot (layoutStore True ls)) (layoutStore True ls))"
| after_event: "reachable s \<Longrightarrow> onCard ev \<Longrightarrow> step ev s = Inr s' \<Longrightarrow> reachable s'"

section \<open>Style resolver\<close>

datatype cssValue = Str string | Px number

datatype transformFunction =
  Translate string string
  | Rotate real
  | Scale real

text \<open>
  The inline style. A length is a string or a number of pixels; the \<open>transform\<close> string is
  kept as the list of its functions, with the angle in degrees. A property the source does
  not set is \<open>None\<close>.
\<close>

record Style =
  cssPosition :: "string option"
  cssTop :: "cssValue option"
  cssLeft :: "cssValue option"
  cssRight :: "cssValue option"
  cssTransform :: "transformFunction list"
  cssZIndex :: number
  cssWidth :: string
  cssTransition :: "string option"
  cssCursor :: "string option"

definition transition :: string where
  "transition = ''top 0.45s cubic-bezier(0.4, 0, 0.2, 1), left 0.45s cubic-bezier(0.4, 0, 0.2, 1), transform 0.45s cubic-bezier(0.4, 0, 0.2, 1), width 0.45s cubic-bezier(0.4, 0, 0.2, 1)''"

definition currentZ :: "Library \<Rightarrow> Fragment \<Rightarrow> number" where
  \<comment> \<open>\<open>zIndexes[item.id] || item.z\<close>: an absent or zero entry falls back to the default\<close>
  "currentZ s item =
     (case map_of (zIndexesOf s) (fid item) of
        None \<Rightarrow> fz item
      | Some v \<Rightarrow> if v = 0 then fz item else v)"

definition getStyle :: "Library \<Rightarrow> Fragment \<Rightarrow> bool \<Rightarrow> bool \<Rightarrow> Position option \<Rightarrow> Style" where
  "getStyle s item isFocused isDragging customPos =
     (let isMedia = (ftype item = ''media'') in
      if isFocused \<and> focusOrigin s \<noteq> None then
        (if focusPhase s = Open then
           \<lparr>cssPosition = Some ''fixed'', cssTop = Some (Str ''50%''), cssLeft = Some (Str ''50%''),
            cssRight = Some (Str ''auto''),
            cssTransform = (if isMedia then [Translate ''-50%'' ''-50%'', Rotate 0]
                            else [Translate ''-50%'' ''-50%'', Rotate 0, Scale 1.5]),
            cssZIndex = 1001,
            cssWidth = (if isMedia then ''480px'' else fwidth item),
            cssTransition = Some transition, cssCursor = None\<rparr>
         else
           \<lparr>cssPosition = Some ''fixed'',
            cssTop = Some (Px (posY (the (focusOrigin s)))),
            cssLeft = Some (Px (posX (the (focusOrigin s)))),
            cssRight = Some (Str ''auto''),
            cssTransform = [Rotate (frotate item), Scale 1],
            cssZIndex = 1001,
            cssWidth = fwidth item,
            cssTransition = Some (if focusPhase s = Closing then transition else ''none''),
            cssCursor = None\<rparr>)
      else if isDragging \<and> dragPos s \<noteq> None then
        \<lparr>cssPosition = Some ''fixed'',
         cssTop = Some (Px (posY (the (dragPos s)))),
         cssLeft = Some (Px (posX (the (dragPos s)))),
         cssRight = Some (Str ''auto''),
         cssTransform = [Rotate (frotate item * 0.3), Scale 1.02],
         cssZIndex = 999,
         cssWidth = fwidth item,
         cssTransition = None, cssCursor = Some ''grabbing''\<rparr>
      else
        (case customPos of
           Some p \<Rightarrow>
             \<lparr>cssPosition = Some ''fixed'', cssTop = Some (Px (posY p)), cssLeft = Some (Px (posX p)),
              cssRight = Some (Str ''auto''),
              cssTransform = [Rotate (frotate item)],
              cssZIndex = currentZ s item,
              cssWidth = fwidth item,
              cssTransition = None, cssCursor = None\<rparr>
         | None \<Rightarrow>
             \<lparr>cssPosition = None, cssTop = Some (Str (ftop item)),
              cssLeft = map_option Str (fleft item),
              cssRight = map_option Str (fright item),
              cssTransform = [Rotate (frotate item)],
              cssZIndex = currentZ s item,
              cssWidth = fwidth item,
              cssTransition = None, cssCursor = None\<rparr>))"

definition renderStyle :: "Library \<Rightarrow> Fragment \<Rightarrow> Style" where
  \<comment> \<open>the call the surface makes for a card\<close>
  "renderStyle s item =
     getStyle s item (focusedId s = Some (fid item)) (draggingId s = Some (fid item))
       (map_of (positionsOf s) (fid item))"

section \<open>Auxiliary notions for the statements and proofs\<close>

text \<open>
  None of the following is code of the program. They name what the results speak about:
  the outcome of a write, what an observer reads from a state, the invariants of a
  session, and a few concrete sessions used as examples.
\<close>

subsection \<open>Printed JSON text\<close>

definition jsNumber :: "number \<Rightarrow> bool" where
  \<comment> \<open>the number has a finite decimal expansion, as every double has\<close>
  "jsNumber x = (fractionDigits maxFractionDigits \<bar>x\<bar> \<noteq> None)"

definition finiteNumbers :: "LayoutData \<Rightarrow> bool" where
  \<comment> \<open>every number of the layout is a number of the language\<close>
  "finiteNumbers d =
     (list_all (\<lambda>p. jsNumber (posX p) \<and> jsNumber (posY p)) (map snd (positions d))
      \<and> list_all jsNumber (map snd (zIndexes d))
      \<and> jsNumber (maxZ d))"

definition noDigitAhead :: "string \<Rightarrow> bool" where
  \<comment> \<open>the text after a digit run does not continue the run\<close>
  "noDigitAhead r = (case r of [] \<Rightarrow> True | c # cs \<Rightarrow> \<not> isDigit c)"

definition delimited :: "string \<Rightarrow> bool" where
  \<comment> \<open>the text after a printed value: the end, a comma or a closing bracket\<close>
  "delimited r =
     (case r of [] \<Rightarrow> True | c # cs \<Rightarrow> c = CHR '','' \<or> c = CHR ''}'' \<or> c = CHR '']'')"

definition closes :: "string \<Rightarrow> bool" where
  \<comment> \<open>the text after the last member of an object or the last element of an array\<close>
  "closes r = (case r of [] \<Rightarrow> True | c # cs \<Rightarrow> c = CHR ''}'' \<or> c = CHR '']'')"

definition valueStart :: "char \<Rightarrow> bool" where
  \<comment> \<open>a first character of a printed value\<close>
  "valueStart c = (c \<in> set ''ntf[{-'' \<or> c = CHR 0x22 \<or> isDigit c)"

fun printable :: "json \<Rightarrow> bool" where
  \<comment> \<open>the numbers are numbers of the language, the keys and strings print without an escape\<close>
  "printable JNull = True"
| "printable (JBool b) = True"
| "printable (JNum x) = jsNumber x"
| "printable (JStr t) = (\<forall>c \<in> set t. plainChar c)"
| "printable (JArr vs) = (\<forall>v \<in> set vs. printable v)"
| "printable (JObj ms) = (\<forall>(k, v) \<in> set ms. (\<forall>c \<in> set k. plainChar c) \<and> printable v)"

subsection \<open>Writes and their outcome\<close>

definition fits :: "string \<Rightarrow> LocalStorage \<Rightarrow> bool" where
  \<comment> \<open>\<open>setItem\<close> of this text succeeds\<close>
  "fits v ls = (\<not> disabled ls \<and> length v \<le> quota ls)"

definition stored :: "LayoutData \<Rightarrow> LayoutStore \<Rightarrow> LayoutStore" where
  \<comment> \<open>the store after the \<open>try\<close> block of \<open>save\<close> has run to its end\<close>
  "stored d st =
     st\<lparr>localStorage := (localStorage st)\<lparr>items := (items (localStorage st))(''library-layout'' \<mapsto> JSON_stringify d)\<rparr>,
        data := Some d,
        snapshot := \<lparr>snapData = Some d, snapIsLoaded = isLoaded st\<rparr>,
        notified := notified st @ map (\<lambda>cb. (cb, \<lparr>snapData = Some d, snapIsLoaded = isLoaded st\<rparr>)) (listeners st)\<rparr>"

definition persisted :: "LayoutData \<Rightarrow> Library \<Rightarrow> Library" where
  \<comment> \<open>the component after \<open>persistLayout\<close>: the counter is set, the store is written if the text fits\<close>
  "persisted d s =
     s\<lparr>maxZRef := maxZ d,
       store := (if fits (JSON_stringify d) (localStorage (store s)) then stored d (store s)
                 else store s)\<rparr>"

definition grabbed :: "nat \<Rightarrow> PointerEvent \<Rightarrow> DOMRect \<Rightarrow> Library \<Rightarrow> Library" where
  \<comment> \<open>the component after the first four statements of \<open>handlePointerDown\<close>\<close>
  "grabbed i e rect s =
     s\<lparr>didDragRef := False,
       dragStartRef := Some \<lparr>startX = clientX e, startY = clientY e,
                             elemX = rectLeft rect, elemY = rectTop rect\<rparr>,
       draggingId := Some i,
       dragPos := Some \<lparr>posX = rectLeft rect, posY = rectTop rect\<rparr>\<rparr>"

definition movedPast :: "DragStart \<Rightarrow> PointerEvent \<Rightarrow> bool" where
  \<comment> \<open>the test of \<open>handleMove\<close>: more than 3 pixels from the gesture origin on either axis\<close>
  "movedPast d m = (\<bar>clientX m - startX d\<bar> > 3 \<or> \<bar>clientY m - startY d\<bar> > 3)"

subsection \<open>Observations\<close>

fun observe :: "(Library \<Rightarrow> 'a) \<Rightarrow> error + Library \<Rightarrow> 'a option" where
  \<comment> \<open>what is read from the state that a run ends in; \<open>None\<close> if the run raised\<close>
  "observe f (Inl e) = None"
| "observe f (Inr s) = Some (f s)"



definition storedText :: "Library \<Rightarrow> string option" where
  \<comment> \<open>the text that storage holds for the layout\<close>
  "storedText s = items (localStorage (store s)) ''library-layout''"

definition styleZ :: "Fragment \<Rightarrow> Library \<Rightarrow> number" where
  \<comment> \<open>the z-index of the style a card is rendered with\<close>
  "styleZ item s = cssZIndex (renderStyle s item)"

subsection \<open>Invariants of a session\<close>

definition focusInv :: "Library \<Rightarrow> bool" where
  \<comment> \<open>the focused id and the origin are set together, and the idle phase has neither\<close>
  "focusInv s =
     ((focusedId s = None \<longleftrightarrow> focusOrigin s = None)
      \<and> (focusPhase s = Idle \<longrightarrow> focusedId s = None))"

definition counterCurrent :: "Library \<Rightarrow> bool" where
  \<comment> \<open>the counter \<open>maxZRef\<close> is at least every stored z-index\<close>
  "counterCurrent s = list_all (\<lambda>v. v \<le> maxZRef s) (map snd (zIndexesOf s))"

definition layoutOK :: "Library \<Rightarrow> bool" where
  \<comment> \<open>the layout of the latest snapshot, if any, satisfies the invariant of the data model\<close>
  "layoutOK s = (case layout s of None \<Rightarrow> True | Some d \<Rightarrow> layoutInv d)"

definition dragOK :: "Library \<Rightarrow> bool" where
  \<comment> \<open>the dragged id, if any, is a card\<close>
  "dragOK s = (case draggingId s of None \<Rightarrow> True | Some i \<Rightarrow> i \<in> set cardIds)"

definition layoutWF :: "Library \<Rightarrow> bool" where
  \<comment> \<open>the layout of the latest snapshot, if any, has its keys ascending\<close>
  "layoutWF s = (case layout s of None \<Rightarrow> True | Some d \<Rightarrow> wellFormed d)"

subsection \<open>Example sessions\<close>

definition emptyStorage :: LocalStorage where
  \<comment> \<open>storage with nothing stored and room for 5000 characters\<close>
  "emptyStorage = \<lparr>items = Map.empty, quota = 5000, disabled = False\<rparr>"

definition fullStorage :: LocalStorage where
  \<comment> \<open>storage with no room left\<close>
  "fullStorage = \<lparr>items = Map.empty, quota = 0, disabled = False\<rparr>"

definition storageWith :: "LayoutData \<Rightarrow> LocalStorage" where
  \<comment> \<open>storage that holds the text of a layout\<close>
  "storageWith d = emptyStorage\<lparr>items := (items emptyStorage)(''library-layout'' \<mapsto> JSON_stringify d)\<rparr>"

definition exampleLayout :: LayoutData where
  \<comment> \<open>card 11 pressed and released at (100, 50), then card 22 dragged to (250, 180)\<close>
  "exampleLayout =
     \<lparr>positions = [(11, \<lparr>posX = 100, posY = 50\<rparr>), (22, \<lparr>posX = 250, posY = 180\<rparr>)],
      zIndexes = [(11, 22), (22, 24)], maxZ = 24\<rparr>"

definition measuredLayout :: LayoutData where
  \<comment> \<open>a layout with the fractional coordinates of measured rectangles\<close>
  "measuredLayout =
     \<lparr>positions = [(11, \<lparr>posX = 63.5, posY = 18.25\<rparr>), (22, \<lparr>posX = - 12.75, posY = 1040.0625\<rparr>)],
      zIndexes = [(11, 21), (22, 22)], maxZ = 22\<rparr>"

definition crowdedLayout :: LayoutData where
  \<comment> \<open>a layout whose counter has passed the fixed layers\<close>
  "crowdedLayout = \<lparr>positions = [], zIndexes = [(11, 1500)], maxZ = 1500\<rparr>"

definition firstVisit :: Library where
  \<comment> \<open>the hydrated page with nothing stored\<close>
  "firstVisit = mount serverSnapshot (layoutStore True emptyStorage)"

definition returnVisit :: Library where
  \<comment> \<open>the hydrated page on a later visit, with \<open>exampleLayout\<close> stored\<close>
  "returnVisit = mount serverSnapshot (layoutStore True (storageWith exampleLayout))"

definition crowdedVisit :: Library where
  \<comment> \<open>the hydrated page with \<open>crowdedLayout\<close> stored\<close>
  "crowdedVisit = mount serverSnapshot (layoutStore True (storageWith crowdedLayout))"

definition closingCard19 :: Library where
  \<comment> \<open>card 19 was clicked, opened, and clicked again: it is closing, its timer pending\<close>
  "closingCard19 =
     handleClick 19 \<lparr>rectLeft = 500, rectTop = 300\<rparr>
       (animationFrame (handleClick 19 \<lparr>rectLeft = 64, rectTop = 144\<rparr> firstVisit))"

definition focus13Drag11 :: Library where
  \<comment> \<open>the media card 13 is focused and open while card 11 is held by the pointer\<close>
  "focus13Drag11 =
     persisted \<lparr>positions = [], zIndexes = [(11, 21)], maxZ = 21\<rparr>
       (grabbed 11 (MouseEvent 70 20) \<lparr>rectLeft = 64, rectTop = 18\<rparr>
         (animationFrame (handleClick 13 \<lparr>rectLeft = 900, rectTop = 160\<rparr> firstVisit)))"

section \<open>Results\<close>

subsection \<open>Media identifier extraction\<close>

lemma matchAt_None:
  "\<forall>lit \<in> set alts. stripPrefix lit s = None \<Longrightarrow> matchAt alts s = None"
  by (induction alts) auto

lemma regexMatch_None:
  "\<forall>lit \<in> set alts. \<not> occursIn lit s \<Longrightarrow> regexMatch alts s = None"
proof (induction s)
  case Nil
  then show ?case by (simp add: matchAt_None)
next
  case (Cons c cs)
  then have "matchAt alts (c # cs) = None"
    by (intro matchAt_None) auto
  moreover from Cons have "regexMatch alts cs = None" by auto
  ultimately show ?case by simp
qed

text \<open>
  Claim C9. \<open>getYouTubeId\<close> returns \<open>EUo0ncJX19A\<close> for the watch URL of the media card,
  \<open>abc123\<close> for the short link \<open>https://youtu.be/abc123\<close>, and no identifier for every URL
  in which none of the four known shapes (\<open>youtube.com/watch?v=\<close>, \<open>youtu.be/\<close>,
  \<open>youtube.com/embed/\<close>, \<open>youtube.com/shorts/\<close>) occurs.
\<close>

theorem getYouTubeId_examples:
  "getYouTubeId ''https://www.youtube.com/watch?v=EUo0ncJX19A'' = Some ''EUo0ncJX19A''
   \<and> getYouTubeId ''https://youtu.be/abc123'' = Some ''abc123''
   \<and> (\<forall>url. \<not> knownShape url \<longrightarrow> getYouTubeId url = None)"
proof (intro conjI allI impI)
  show "getYouTubeId ''https://www.youtube.com/watch?v=EUo0ncJX19A'' = Some ''EUo0ncJX19A''"
    by (simp add: getYouTubeId_def patterns_def pattern1_def pattern2_def idChar_def)
  show "getYouTubeId ''https://youtu.be/abc123'' = Some ''abc123''"
    by (simp add: getYouTubeId_def patterns_def pattern1_def pattern2_def idChar_def)
next
  fix url assume "\<not> knownShape url"
  then have "regexMatch pattern1 url = None" "regexMatch pattern2 url = None"
    by (auto simp: knownShape_def patterns_def intro!: regexMatch_None)
  then show "getYouTubeId url = None"
    by (simp add: getYouTubeId_def patterns_def)
qed

theorem getYouTubeId_examples_witness:
  "\<not> knownShape ''https://example.com/video?id=42''
   \<and> getYouTubeId ''https://example.com/video?id=42'' = None"
proof -
  have h: "\<not> knownShape ''https://example.com/video?id=42''"
    by (simp add: knownShape_def patterns_def pattern1_def pattern2_def)
  from getYouTubeId_examples have "\<forall>url. \<not> knownShape url \<longrightarrow> getYouTubeId url = None"
    by blast
  with h show ?thesis by blast
qed

subsection \<open>Digit strings\<close>

lemma isDigit_digitChar: "d < 10 \<Longrightarrow> isDigit (digitChar d)"
  by (simp add: isDigit_def digitChar_def)

lemma digitVal_digitChar: "d < 10 \<Longrightarrow> digitVal (digitChar d) = d"
  by (simp add: digitVal_def digitChar_def)

lemma digitsOf_digits: "\<forall>c \<in> set (digitsOf n). isDigit c"
proof (induction n rule: digitsOf.induct)
  case (1 n)
  show ?case
  proof (cases "n < 10")
    case True
    then show ?thesis by (subst digitsOf.simps) (simp add: isDigit_digitChar)
  next
    case False
    with 1 show ?thesis by (subst digitsOf.simps) (simp add: isDigit_digitChar)
  qed
qed

lemma digitsOf_nonempty: "digitsOf n \<noteq> []"
  by (subst digitsOf.simps) simp

lemma natOfDigits_Nil: "natOfDigits [] = 0"
  by (simp add: natOfDigits_def)

lemma natOfDigits_snoc: "natOfDigits (ds @ [c]) = 10 * natOfDigits ds + digitVal c"
  by (simp add: natOfDigits_def)

lemma natOfDigits_digitsOf: "natOfDigits (digitsOf n) = n"
proof (induction n rule: digitsOf.induct)
  case (1 n)
  show ?case
  proof (cases "n < 10")
    case True
    then show ?thesis
      by (subst digitsOf.simps) (simp add: natOfDigits_def digitVal_digitChar)
  next
    case False
    with 1 have "natOfDigits (digitsOf (n div 10)) = n div 10" by simp
    with False show ?thesis
      by (subst digitsOf.simps) (simp add: natOfDigits_snoc digitVal_digitChar)
  qed
qed

lemma digitChar_zero: "d < 10 \<Longrightarrow> digitChar d = CHR ''0'' \<longleftrightarrow> d = 0"
proof -
  assume d: "d < 10"
  have "digitChar d = CHR ''0'' \<longleftrightarrow> (of_char (digitChar d) :: nat) = of_char CHR ''0''"
    by (simp only: of_char_eq_iff)
  with d show ?thesis by (simp add: digitChar_def)
qed

lemma hd_digitsOf_zero: "hd (digitsOf n) = CHR ''0'' \<Longrightarrow> n < 10"
proof (induction n rule: digitsOf.induct)
  case (1 n)
  show ?case
  proof (rule ccontr)
    assume a: "\<not> n < 10"
    then have "digitsOf n = digitsOf (n div 10) @ [digitChar (n mod 10)]"
      by (subst digitsOf.simps) simp
    with "1.prems" have "hd (digitsOf (n div 10)) = CHR ''0''"
      by (simp add: digitsOf_nonempty)
    with 1 a have "n div 10 < 10" by simp
    then have "digitsOf (n div 10) = [digitChar (n div 10)]"
      by (subst digitsOf.simps) simp
    with \<open>hd (digitsOf (n div 10)) = CHR ''0''\<close> \<open>n div 10 < 10\<close> have "n div 10 = 0"
      by (simp add: digitChar_zero)
    with a show False by simp
  qed
qed

lemma hd_digitsOf_positive: "0 < n \<Longrightarrow> hd (digitsOf n) \<noteq> CHR ''0''"
proof
  assume n: "0 < n" and z: "hd (digitsOf n) = CHR ''0''"
  from z have "n < 10" by (rule hd_digitsOf_zero)
  then have "digitsOf n = [digitChar n]" by (subst digitsOf.simps) simp
  with z \<open>n < 10\<close> have "n = 0" by (simp add: digitChar_zero)
  with n show False by simp
qed

lemma digit_run:
  assumes "\<forall>c \<in> set ds. isDigit c" and "noDigitAhead r"
  shows "takeWhile isDigit (ds @ r) = ds" and "dropWhile isDigit (ds @ r) = r"
proof -
  from assms(2) have "takeWhile isDigit r = []" "dropWhile isDigit r = r"
    by (cases r; simp add: noDigitAhead_def)+
  with assms(1) show "takeWhile isDigit (ds @ r) = ds" "dropWhile isDigit (ds @ r) = r"
    by (simp_all add: takeWhile_append2 dropWhile_append2)
qed

lemma natOfDigits_append:
  "natOfDigits (a @ b) = natOfDigits a * 10 ^ length b + natOfDigits b"
proof (induction b rule: rev_induct)
  case Nil
  then show ?case by (simp add: natOfDigits_def)
next
  case (snoc c b)
  have "natOfDigits (a @ b @ [c]) = 10 * natOfDigits (a @ b) + digitVal c"
    using natOfDigits_snoc[of "a @ b" c] by simp
  with snoc show ?case by (simp add: natOfDigits_snoc algebra_simps)
qed

lemma natOfDigits_zeros: "natOfDigits (replicate j CHR ''0'') = 0"
proof (induction j)
  case 0
  then show ?case by (simp add: natOfDigits_def)
next
  case (Suc j)
  have "replicate (Suc j) CHR ''0'' = replicate j CHR ''0'' @ [CHR ''0'']"
    by (simp add: replicate_append_same)
  with Suc show ?case by (simp only: natOfDigits_snoc) (simp add: digitVal_def)
qed

lemma natOfDigits_pad:
  "natOfDigits (ds @ replicate j CHR ''0'') = natOfDigits ds * 10 ^ j"
  "natOfDigits (replicate j CHR ''0'' @ ds) = natOfDigits ds"
  by (simp_all add: natOfDigits_append natOfDigits_zeros)

lemma zeros_digits: "\<forall>c \<in> set (replicate j CHR ''0''). isDigit c"
  by (simp add: isDigit_def)

lemma stripZeros_split:
  "ds = stripZeros ds @ replicate (length ds - length (stripZeros ds)) CHR ''0''"
proof -
  let ?P = "\<lambda>c. c = CHR ''0''"
  have t: "takeWhile ?P xs = replicate (length (takeWhile ?P xs)) CHR ''0''" for xs :: string
    by (induction xs) auto
  have "rev ds = takeWhile ?P (rev ds) @ dropWhile ?P (rev ds)" by simp
  then have "ds = rev (dropWhile ?P (rev ds)) @ rev (takeWhile ?P (rev ds))"
    by (metis rev_append rev_rev_ident)
  moreover have "rev (takeWhile ?P (rev ds)) = replicate (length (takeWhile ?P (rev ds))) CHR ''0''"
    using t[of "rev ds"] by (metis rev_replicate)
  moreover have "length (takeWhile ?P (rev ds)) = length ds - length (stripZeros ds)"
  proof -
    have "length (takeWhile ?P (rev ds)) + length (dropWhile ?P (rev ds)) = length ds"
      by (metis length_append length_rev takeWhile_dropWhile_id)
    then show ?thesis by (simp add: stripZeros_def)
  qed
  ultimately show ?thesis by (simp add: stripZeros_def)
qed

lemma stripZeros_subset: "set (stripZeros ds) \<subseteq> set ds"
  by (auto simp: stripZeros_def dest: set_dropWhileD)

lemma stripZeros_hd:
  assumes "ds \<noteq> []" and "hd ds \<noteq> CHR ''0''"
  shows "stripZeros ds \<noteq> []" and "hd (stripZeros ds) = hd ds"
proof -
  show ne: "stripZeros ds \<noteq> []"
  proof
    assume "stripZeros ds = []"
    with stripZeros_split[of ds] have "ds = replicate (length ds) CHR ''0''" by simp
    with assms show False by (cases ds) auto
  qed
  from stripZeros_split[of ds] ne show "hd (stripZeros ds) = hd ds"
    by (metis hd_append2)
qed

lemma natOfDigits_stripZeros:
  "natOfDigits ds = natOfDigits (stripZeros ds) * 10 ^ (length ds - length (stripZeros ds))"
  using natOfDigits_pad(1)[of "stripZeros ds" "length ds - length (stripZeros ds)"]
    stripZeros_split[of ds] by simp

lemma length_stripZeros: "length (stripZeros ds) \<le> length ds"
  by (simp add: stripZeros_def) (metis length_dropWhile_le length_rev)


subsection \<open>A printed number reads back\<close>

lemma stripPrefix_append: "stripPrefix p (p @ r) = Some r"
  by (induction p) auto

lemma stripPrefix_hd: "s \<noteq> [] \<Longrightarrow> hd s \<noteq> c \<Longrightarrow> stripPrefix (c # p) (s @ r) = None"
  by (cases s) auto

lemma delimited_facts:
  assumes "delimited r"
  shows "noDigitAhead r" "stripPrefix ''.'' r = None" "stripPrefix ''e'' r = None"
    "stripPrefix ''E'' r = None" "stripPrefix ''-'' r = None"
  using assms by (auto simp: delimited_def noDigitAhead_def isDigit_def split: list.splits)

lemma parseDigits_run:
  assumes "ds \<noteq> []" and "\<forall>c \<in> set ds. isDigit c" and "hd ds \<noteq> CHR ''0'' \<or> tl ds = []"
    and "noDigitAhead r"
  shows "parseDigits (ds @ r) = Some (natOfDigits ds, r)"
  using assms digit_run[OF assms(2) assms(4)] by (auto simp: parseDigits_def Let_def)

lemma parseFraction_none: "stripPrefix ''.'' r = None \<Longrightarrow> parseFraction r = Some ([], r)"
  by (simp add: parseFraction_def)

lemma parseFraction_some:
  assumes "fp \<noteq> []" and "\<forall>c \<in> set fp. isDigit c" and "noDigitAhead r"
  shows "parseFraction (CHR ''.'' # fp @ r) = Some (fp, r)"
  using assms digit_run[OF assms(2) assms(3)] by (simp add: parseFraction_def)

lemma parseExponent_none:
  "stripPrefix ''e'' r = None \<Longrightarrow> stripPrefix ''E'' r = None \<Longrightarrow> parseExponent r = Some (0, r)"
  by (simp add: parseExponent_def)

lemma hd_digitsOf_isDigit: "isDigit (hd (digitsOf n))"
  using digitsOf_digits[of n] digitsOf_nonempty[of n] by (cases "digitsOf n") auto

lemma parseExponent_some:
  assumes "noDigitAhead r"
  shows "parseExponent (exponentPart ex @ r) = Some (ex, r)"
proof -
  let ?ds = "digitsOf (nat \<bar>ex\<bar>)"
  note run = digit_run[OF digitsOf_digits[of "nat \<bar>ex\<bar>"] assms]
  have hd: "hd ?ds \<noteq> CHR ''-''" "hd ?ds \<noteq> CHR ''+''"
    using hd_digitsOf_isDigit[of "nat \<bar>ex\<bar>"] by (auto simp: isDigit_def)
  show ?thesis
  proof (cases "ex < 0")
    case True
    then have "parseSign (CHR ''-'' # ?ds @ r) = (True, ?ds @ r)" by (simp add: parseSign_def)
    with True run show ?thesis
      by (simp add: parseExponent_def exponentPart_def digitsOf_nonempty natOfDigits_digitsOf)
  next
    case False
    then have "parseSign (CHR ''+'' # ?ds @ r) = (False, ?ds @ r)" by (simp add: parseSign_def)
    with False run show ?thesis
      by (simp add: parseExponent_def exponentPart_def digitsOf_nonempty natOfDigits_digitsOf)
  qed
qed

lemma scale10_zero [simp]: "scale10 x 0 = x"
  by (simp add: scale10_def)

lemma scale10_nat: "scale10 x (int j) = x * 10 ^ j"
  by (simp add: scale10_def)

lemma parseUnsigned_parts:
  assumes "parseDigits s = Some (ip, r)" and "parseFraction r = Some (fp, r1)"
    and "parseExponent r1 = Some (ex, r2)"
  shows "parseUnsigned s
     = Some (scale10 (of_nat (ip * 10 ^ length fp + natOfDigits fp)) (ex - int (length fp)), r2)"
  using assms by (simp add: parseUnsigned_def)

lemma parseUnsigned_formatDigits:
  assumes ne: "s \<noteq> []" and dig: "\<forall>c \<in> set s. isDigit c" and lead: "hd s \<noteq> CHR ''0''"
    and r: "delimited r"
  shows "parseUnsigned (formatDigits s n @ r)
     = Some (scale10 (of_nat (natOfDigits s)) (n - int (length s)), r)"
proof -
  let ?k = "int (length s)"
  note d = delimited_facts[OF r]
  have nodigit: "noDigitAhead (CHR ''.'' # t)" "noDigitAhead (CHR ''e'' # t)" for t
    by (simp_all add: noDigitAhead_def isDigit_def)
  have nopoint: "stripPrefix ''.'' (exponentPart ex @ t) = None" for ex t
    by (simp add: exponentPart_def)
  consider (plain) "?k \<le> n" "n \<le> 21"
    | (point) "\<not> (?k \<le> n \<and> n \<le> 21)" "0 < n" "n \<le> 21"
    | (small) "\<not> (?k \<le> n \<and> n \<le> 21)" "\<not> (0 < n \<and> n \<le> 21)" "- 6 < n" "n \<le> 0"
    | (exp1) "\<not> (?k \<le> n \<and> n \<le> 21)" "\<not> (0 < n \<and> n \<le> 21)" "\<not> (- 6 < n \<and> n \<le> 0)" "?k = 1"
    | (expk) "\<not> (?k \<le> n \<and> n \<le> 21)" "\<not> (0 < n \<and> n \<le> 21)" "\<not> (- 6 < n \<and> n \<le> 0)" "?k \<noteq> 1"
    by linarith
  then show ?thesis
  proof cases
    case plain
    let ?z = "replicate (nat (n - ?k)) CHR ''0''"
    have f: "formatDigits s n @ r = (s @ ?z) @ r"
      using plain by (simp add: formatDigits_def Let_def)
    have "parseDigits ((s @ ?z) @ r) = Some (natOfDigits (s @ ?z), r)"
      using ne dig lead d(1) by (intro parseDigits_run) (auto simp: isDigit_def)
    from parseUnsigned_parts[OF this parseFraction_none[OF d(2)] parseExponent_none[OF d(3) d(4)]]
    have "parseUnsigned ((s @ ?z) @ r) = Some (of_nat (natOfDigits s * 10 ^ nat (n - ?k)), r)"
      by (simp add: natOfDigits_Nil natOfDigits_pad(1))
    moreover have "scale10 (of_nat (natOfDigits s)) (n - ?k) = of_nat (natOfDigits s * 10 ^ nat (n - ?k))"
      using plain by (simp add: scale10_def)
    ultimately show ?thesis unfolding f by simp
  next
    case point
    then have nk: "nat n < length s" "0 < nat n" by linarith+
    let ?ip = "take (nat n) s" and ?fp = "drop (nat n) s"
    have f: "formatDigits s n @ r = ?ip @ (CHR ''.'' # ?fp @ r)"
      using point unfolding formatDigits_def Let_def
      by (simp only: if_False if_True simp_thms append_assoc append_Cons append_Nil)
    have ip: "?ip \<noteq> []" "\<forall>c \<in> set ?ip. isDigit c" "hd ?ip \<noteq> CHR ''0''"
      using nk ne dig lead by (auto dest: in_set_takeD simp: hd_take)
    have fp: "?fp \<noteq> []" "\<forall>c \<in> set ?fp. isDigit c"
      using nk dig by (auto dest: in_set_dropD)
    have 1: "parseDigits (?ip @ (CHR ''.'' # ?fp @ r)) = Some (natOfDigits ?ip, CHR ''.'' # ?fp @ r)"
      using ip nodigit by (intro parseDigits_run) auto
    have 2: "parseFraction (CHR ''.'' # ?fp @ r) = Some (?fp, r)"
      using fp d(1) by (rule parseFraction_some)
    have "natOfDigits ?ip * 10 ^ length ?fp + natOfDigits ?fp = natOfDigits s"
      using natOfDigits_append[of ?ip ?fp] by simp
    moreover have "0 - int (length ?fp) = n - ?k" using nk by simp
    ultimately show ?thesis
      unfolding f using parseUnsigned_parts[OF 1 2 parseExponent_none[OF d(3) d(4)]]
      by (simp only:)
  next
    case small
    let ?z = "replicate (nat (- n)) CHR ''0''"
    have f: "formatDigits s n @ r = ''0'' @ (CHR ''.'' # (?z @ s) @ r)"
      using small unfolding formatDigits_def Let_def
      by (simp only: if_False if_True simp_thms append_assoc append_Cons append_Nil)
    have 1: "parseDigits (''0'' @ (CHR ''.'' # (?z @ s) @ r))
        = Some (natOfDigits ''0'', CHR ''.'' # (?z @ s) @ r)"
      using nodigit by (intro parseDigits_run) (auto simp: isDigit_def)
    have 2: "parseFraction (CHR ''.'' # (?z @ s) @ r) = Some (?z @ s, r)"
      using ne dig d(1) by (intro parseFraction_some) (auto simp: isDigit_def)
    have "natOfDigits ''0'' * 10 ^ length (?z @ s) + natOfDigits (?z @ s) = natOfDigits s"
      by (simp add: natOfDigits_pad(2)) (simp add: natOfDigits_def digitVal_def)
    moreover have "0 - int (length (?z @ s)) = n - ?k" using small by simp
    ultimately show ?thesis
      unfolding f using parseUnsigned_parts[OF 1 2 parseExponent_none[OF d(3) d(4)]]
      by (simp only:)
  next
    case exp1
    have f: "formatDigits s n @ r = s @ (exponentPart (n - 1) @ r)"
      using exp1 unfolding formatDigits_def Let_def
      by (simp only: if_False if_True simp_thms append_assoc)
    from exp1(4) have single: "tl s = []" by (cases s) auto
    have 1: "parseDigits (s @ (exponentPart (n - 1) @ r)) = Some (natOfDigits s, exponentPart (n - 1) @ r)"
      using ne dig lead by (intro parseDigits_run) (auto simp: exponentPart_def nodigit)
    have 2: "parseFraction (exponentPart (n - 1) @ r) = Some ([], exponentPart (n - 1) @ r)"
      by (rule parseFraction_none[OF nopoint])
    have 3: "parseExponent (exponentPart (n - 1) @ r) = Some (n - 1, r)"
      by (rule parseExponent_some[OF d(1)])
    have "natOfDigits s * 10 ^ length ([]::string) + natOfDigits [] = natOfDigits s"
      by (simp add: natOfDigits_Nil)
    moreover have "n - 1 - int (length ([]::string)) = n - ?k" using exp1(4) by simp
    ultimately show ?thesis
      unfolding f using parseUnsigned_parts[OF 1 2 3] by (simp only:)
  next
    case expk
    from expk(4) ne have k2: "2 \<le> length s"
      by (cases s) (auto simp: Suc_le_eq)
    let ?fp = "tl s"
    have s: "s = [hd s] @ ?fp" using ne by simp
    have f: "formatDigits s n @ r = [hd s] @ (CHR ''.'' # ?fp @ (exponentPart (n - 1) @ r))"
      using expk unfolding formatDigits_def Let_def
      by (simp only: if_False if_True simp_thms append_assoc append_Cons append_Nil)
    have fp: "?fp \<noteq> []" "\<forall>c \<in> set ?fp. isDigit c"
      using k2 dig ne by (cases s; auto)+
    have 1: "parseDigits ([hd s] @ (CHR ''.'' # ?fp @ (exponentPart (n - 1) @ r)))
        = Some (natOfDigits [hd s], CHR ''.'' # ?fp @ (exponentPart (n - 1) @ r))"
      using ne dig nodigit by (intro parseDigits_run) auto
    have 2: "parseFraction (CHR ''.'' # ?fp @ (exponentPart (n - 1) @ r))
        = Some (?fp, exponentPart (n - 1) @ r)"
      using fp by (intro parseFraction_some) (auto simp: exponentPart_def nodigit)
    have 3: "parseExponent (exponentPart (n - 1) @ r) = Some (n - 1, r)"
      by (rule parseExponent_some[OF d(1)])
    have "natOfDigits [hd s] * 10 ^ length ?fp + natOfDigits ?fp = natOfDigits s"
      using natOfDigits_append[of "[hd s]" ?fp] s by simp
    moreover have "n - 1 - int (length ?fp) = n - ?k" using k2 by simp
    ultimately show ?thesis
      unfolding f using parseUnsigned_parts[OF 1 2 3] by (simp only:)
  qed
qed


lemma fractionDigits_exact: "fractionDigits f x = Some e \<Longrightarrow> isInt (x * 10 ^ e)"
proof (induction f arbitrary: x e)
  case 0
  then show ?case by (simp split: if_splits)
next
  case (Suc f)
  show ?case
  proof (cases "isInt x")
    case True
    with Suc.prems show ?thesis by simp
  next
    case False
    with Suc.prems obtain e' where "fractionDigits f (x * 10) = Some e'" "e = Suc e'"
      by auto
    with Suc.IH[of "x * 10" e'] show ?thesis by (simp add: mult.assoc)
  qed
qed

lemma scale10_neg: "0 < d \<Longrightarrow> scale10 x (- int d) = x / 10 ^ d"
  by (simp add: scale10_def)

lemma scale10_diff: "scale10 (of_nat a) (int j - int e) = of_nat (a * 10 ^ j) / 10 ^ e"
proof (cases "e \<le> j")
  case True
  then obtain d where j: "j = e + d" using le_Suc_ex by blast
  have "scale10 (of_nat a) (int d) = of_nat a * 10 ^ d" by (rule scale10_nat)
  moreover have "of_nat (a * 10 ^ (e + d)) / 10 ^ e = (of_nat a :: rat) * 10 ^ d"
    by (simp add: power_add)
  ultimately show ?thesis unfolding j by simp
next
  case False
  then obtain d where e: "e = j + Suc d"
    using less_imp_Suc_add[of j e] by auto
  have "scale10 (of_nat a) (- int (Suc d)) = of_nat a / 10 ^ Suc d"
    using scale10_neg[of "Suc d"] by simp
  moreover have "of_nat (a * 10 ^ j) / 10 ^ (j + Suc d) = (of_nat a :: rat) / 10 ^ Suc d"
    by (simp add: power_add)
  moreover have "int j - int (j + Suc d) = - int (Suc d)" by simp
  ultimately show ?thesis unfolding e by (simp only:)
qed

lemma showPositive_digits:
  assumes pos: "0 < x" and ex: "isInt (x * 10 ^ e)"
  obtains s n where "showPositive e x = formatDigits s n" and "s \<noteq> []"
    and "\<forall>c \<in> set s. isDigit c" and "hd s \<noteq> CHR ''0''"
    and "scale10 (of_nat (natOfDigits s)) (n - int (length s)) = x"
proof -
  define N where "N = nat \<lfloor>x * 10 ^ e\<rfloor>"
  define ds where "ds = digitsOf N"
  define s where "s = stripZeros ds"
  define j where "j = length ds - length s"
  from pos have p: "0 < x * 10 ^ e" by simp
  then have "0 \<le> \<lfloor>x * 10 ^ e\<rfloor>" by simp
  then have "(of_int \<lfloor>x * 10 ^ e\<rfloor> :: rat) = of_nat N" unfolding N_def by simp
  moreover from ex have "x * 10 ^ e = of_int \<lfloor>x * 10 ^ e\<rfloor>" unfolding isInt_def .
  ultimately have xe: "x * 10 ^ e = of_nat N" by (simp only:)
  from p have "(0::rat) < of_nat N" unfolding xe .
  then have Npos: "0 < N" by simp
  have ne: "ds \<noteq> []" unfolding ds_def by (rule digitsOf_nonempty)
  have hd: "hd ds \<noteq> CHR ''0''" unfolding ds_def using Npos by (rule hd_digitsOf_positive)
  have sh: "s \<noteq> []" "hd s = hd ds" unfolding s_def by (rule stripZeros_hd[OF ne hd])+
  have dig: "\<forall>c \<in> set s. isDigit c"
    unfolding s_def ds_def using stripZeros_subset[of "digitsOf N"] digitsOf_digits[of N] by blast
  have "length s \<le> length ds" unfolding s_def by (rule length_stripZeros)
  then have idx: "int (length ds) - int e - int (length s) = int j - int e"
    unfolding j_def by linarith
  have "natOfDigits ds = N" unfolding ds_def by (rule natOfDigits_digitsOf)
  moreover have "natOfDigits ds = natOfDigits s * 10 ^ j"
    unfolding s_def j_def by (rule natOfDigits_stripZeros)
  ultimately have n: "natOfDigits s * 10 ^ j = N" by (simp only:)
  have "x * 10 ^ e / 10 ^ e = x" by simp
  then have q: "of_nat N / 10 ^ e = x" unfolding xe .
  have val: "scale10 (of_nat (natOfDigits s)) (int (length ds) - int e - int (length s)) = x"
    unfolding idx scale10_diff n by (rule q)
  have "showPositive e x = formatDigits s (int (length ds) - int e)"
    unfolding s_def ds_def N_def by (simp add: showPositive_def Let_def)
  then show ?thesis using sh(1) dig hd val unfolding sh(2)[symmetric] by (rule that)
qed

lemma parseUnsigned_showPositive:
  assumes "0 < x" and "isInt (x * 10 ^ e)" and "delimited r"
  shows "parseUnsigned (showPositive e x @ r) = Some (x, r)"
proof -
  from assms(1,2) obtain s n where "showPositive e x = formatDigits s n" and "s \<noteq> []"
    and "\<forall>c \<in> set s. isDigit c" and "hd s \<noteq> CHR ''0''"
    and "scale10 (of_nat (natOfDigits s)) (n - int (length s)) = x"
    by (rule showPositive_digits)
  with parseUnsigned_formatDigits[of s r n] assms(3) show ?thesis by simp
qed

lemma formatDigits_head:
  "s \<noteq> [] \<Longrightarrow> formatDigits s n \<noteq> [] \<and> (hd (formatDigits s n) = hd s \<or> hd (formatDigits s n) = CHR ''0'')"
  by (auto simp: formatDigits_def Let_def hd_append)

lemma showPositive_head:
  assumes "0 < x" and "isInt (x * 10 ^ e)"
  shows "showPositive e x \<noteq> [] \<and> isDigit (hd (showPositive e x))"
proof -
  from assms obtain s n where f: "showPositive e x = formatDigits s n" and s: "s \<noteq> []"
    and d: "\<forall>c \<in> set s. isDigit c"
    by (rule showPositive_digits)
  from s d have "isDigit (hd s)" by (cases s) auto
  moreover have "isDigit CHR ''0''" by (simp add: isDigit_def)
  ultimately show ?thesis using formatDigits_head[OF s, of n] unfolding f by auto
qed

lemma isInt_zero: "isInt 0"
  by (simp add: isInt_def)

lemma fractionDigits_zero: "fractionDigits f 0 = Some 0"
  by (cases f) (simp_all add: isInt_zero)

lemma showNumber_zero: "showNumber 0 = ''0''"
  by (simp add: showNumber_def fractionDigits_zero)

lemma showNumber_cases:
  assumes "jsNumber x"
  obtains (zero) "x = 0" "showNumber x = ''0''"
  | (positive) e where "0 < x" "isInt (x * 10 ^ e)" "showNumber x = showPositive e x"
  | (negative) e where "x < 0" "isInt (- x * 10 ^ e)" "showNumber x = CHR ''-'' # showPositive e (- x)"
proof -
  from assms obtain e where e: "fractionDigits maxFractionDigits \<bar>x\<bar> = Some e"
    by (auto simp: jsNumber_def)
  then have ex: "isInt (\<bar>x\<bar> * 10 ^ e)" by (rule fractionDigits_exact)
  consider "x = 0" | "0 < x" | "x < 0" by linarith
  then show ?thesis
  proof cases
    case 1
    then show ?thesis using zero showNumber_zero by simp
  next
    case 2
    with e ex show ?thesis by (intro positive[of e]) (simp_all add: showNumber_def)
  next
    case 3
    with e ex show ?thesis by (intro negative[of e]) (simp_all add: showNumber_def)
  qed
qed

lemma showNumber_head:
  assumes "jsNumber x"
  shows "showNumber x \<noteq> [] \<and> (hd (showNumber x) = CHR ''-'' \<or> isDigit (hd (showNumber x)))"
  using assms
proof (cases rule: showNumber_cases)
  case zero
  then show ?thesis by (simp add: isDigit_def)
next
  case (positive e)
  then show ?thesis using showPositive_head[of x e] by simp
next
  case (negative e)
  then show ?thesis by simp
qed

lemma parseUnsigned_zero:
  assumes "delimited r"
  shows "parseUnsigned (''0'' @ r) = Some (0, r)"
proof -
  note d = delimited_facts[OF assms]
  have "parseDigits (''0'' @ r) = Some (natOfDigits ''0'', r)"
    using d(1) by (intro parseDigits_run) (auto simp: isDigit_def)
  from parseUnsigned_parts[OF this parseFraction_none[OF d(2)] parseExponent_none[OF d(3) d(4)]]
  show ?thesis by (simp add: natOfDigits_def digitVal_def)
qed

lemma parseNumber_showNumber:
  assumes "jsNumber x" and r: "delimited r"
  shows "parseNumber (showNumber x @ r) = Some (JNum x, r)"
  using assms(1)
proof (cases rule: showNumber_cases)
  case zero
  then show ?thesis using parseUnsigned_zero[OF r] by (simp add: parseNumber_def)
next
  case (positive e)
  from showPositive_head[OF positive(1,2)] have "hd (showPositive e x) \<noteq> CHR ''-''"
    and ne: "showPositive e x \<noteq> []"
    by (auto simp: isDigit_def)
  then have "stripPrefix ''-'' (showPositive e x @ r) = None"
    by (intro stripPrefix_hd)
  then show ?thesis
    using parseUnsigned_showPositive[OF positive(1,2) r] positive(3)
    by (simp add: parseNumber_def)
next
  case (negative e)
  then have "0 < - x" by simp
  from parseUnsigned_showPositive[OF this negative(2) r] negative(3)
  show ?thesis by (simp add: parseNumber_def)
qed

subsection \<open>A printed value reads back\<close>

lemma parseString_quoteKey:
  assumes "\<forall>c \<in> set k. plainChar c"
  shows "parseString (quoteKey k @ r) = Some (k, r)"
proof -
  have "takeWhile plainChar (k @ CHR 0x22 # r) = k"
    using assms by (simp add: takeWhile_append2 plainChar_def)
  moreover have "dropWhile plainChar (k @ CHR 0x22 # r) = CHR 0x22 # r"
    using assms by (simp add: dropWhile_append2 plainChar_def)
  ultimately show ?thesis
    by (simp add: parseString_def quoteKey_def)
qed

lemma closes_delimited: "closes r \<Longrightarrow> delimited r"
  by (auto simp: delimited_def closes_def split: list.splits)

lemma closes_no_comma: "closes r \<Longrightarrow> stripPrefix '','' r = None"
  by (auto simp: closes_def split: list.splits)

lemma skipWs_delimited: "delimited r \<Longrightarrow> skipWs r = r"
  by (auto simp: delimited_def skipWs_def isWs_def split: list.splits)

lemma skipWs_valueStart: "valueStart c \<Longrightarrow> skipWs (c # t) = c # t"
  by (auto simp: valueStart_def skipWs_def isWs_def isDigit_def)

lemma parseValue_number:
  assumes "s \<noteq> []" and "hd s = CHR ''-'' \<or> isDigit (hd s)"
  shows "parseValue (Suc n) (s @ r) = parseNumber (s @ r)"
proof -
  from assms obtain c t where s: "s = c # t" and c: "c = CHR ''-'' \<or> isDigit c"
    by (cases s) auto
  from c have "skipWs (c # t @ r) = c # t @ r"
    by (intro skipWs_valueStart) (auto simp: valueStart_def)
  moreover from c have "c \<noteq> CHR ''n''" "c \<noteq> CHR ''t''" "c \<noteq> CHR ''f''" "c \<noteq> CHR 0x22"
    "c \<noteq> CHR ''[''" "c \<noteq> CHR ''{''"
    by (auto simp: isDigit_def)
  ultimately show ?thesis unfolding s by simp
qed

lemma stringifyMembers_quote:
  "ms \<noteq> [] \<Longrightarrow> \<exists>t. stringifyMembers ms = CHR 0x22 # t"
  by (cases ms) (auto simp: quoteKey_def)

lemma stringify_start: "printable v \<Longrightarrow> \<exists>c t. stringify v = c # t \<and> valueStart c"
proof (cases v)
  case (JNum x)
  assume "printable v"
  with JNum have "jsNumber x" by simp
  from showNumber_head[OF this] show ?thesis
    unfolding JNum by (cases "showNumber x") (auto simp: valueStart_def)
qed (auto simp: valueStart_def quoteKey_def)

lemma stringifyElements_start:
  assumes "vs \<noteq> []" and "\<forall>v \<in> set vs. printable v"
  shows "\<exists>c t. stringifyElements vs = c # t \<and> valueStart c"
proof -
  from assms obtain v vs' where vs: "vs = v # vs'" and "printable v" by (cases vs) auto
  from stringify_start[OF this(2)] show ?thesis unfolding vs by auto
qed

lemma parseElements_step:
  assumes v: "parseValue n (stringify v @ r') = Some (v, r')"
    and r': "r' = (if vs = [] then r else CHR '','' # stringifyElements vs @ r)"
    and r: "closes r"
    and rest: "vs \<noteq> [] \<Longrightarrow> parseElements n (stringifyElements vs @ r) = Some (vs, r)"
  shows "parseElements (Suc n) (stringifyElements (v # vs) @ r) = Some (v # vs, r)"
proof -
  have eq: "stringifyElements (v # vs) @ r = stringify v @ r'"
    using r' by simp
  have d: "delimited r'" using r' closes_delimited[OF r] by (auto simp: delimited_def)
  show ?thesis
  proof (cases "vs = []")
    case True
    with r' r have "stripPrefix '','' r' = None" by (simp add: closes_no_comma)
    with True v r' show ?thesis
      unfolding eq by (simp add: skipWs_delimited[OF closes_delimited[OF r]])
  next
    case False
    with r' have "stripPrefix '','' r' = Some (stringifyElements vs @ r)" by simp
    with False v rest show ?thesis
      unfolding eq by (simp add: skipWs_delimited[OF d])
  qed
qed

lemma parseMembers_step:
  assumes k: "\<forall>c \<in> set k. plainChar c"
    and v: "parseValue n (stringify v @ r') = Some (v, r')"
    and r': "r' = (if ms = [] then r else CHR '','' # stringifyMembers ms @ r)"
    and r: "closes r"
    and rest: "ms \<noteq> [] \<Longrightarrow> parseMembers n (stringifyMembers ms @ r) = Some (ms, r)"
  shows "parseMembers (Suc n) (stringifyMembers ((k, v) # ms) @ r) = Some ((k, v) # ms, r)"
proof -
  have eq: "stringifyMembers ((k, v) # ms) @ r = quoteKey k @ CHR '':'' # stringify v @ r'"
    using r' by simp
  have d: "delimited r'" using r' closes_delimited[OF r] by (auto simp: delimited_def)
  have q: "skipWs (quoteKey k @ t) = quoteKey k @ t" for t
    by (simp add: quoteKey_def skipWs_def isWs_def)
  have c: "skipWs (CHR '':'' # t) = CHR '':'' # t" for t
    by (simp add: skipWs_def isWs_def)
  show ?thesis
  proof (cases "ms = []")
    case True
    with r' r have "stripPrefix '','' r' = None" by (simp add: closes_no_comma)
    with True k v r' show ?thesis
      unfolding eq
      by (simp add: q c parseString_quoteKey skipWs_delimited[OF closes_delimited[OF r]])
  next
    case False
    with r' have "stripPrefix '','' r' = Some (stringifyMembers ms @ r)" by simp
    with False k v rest show ?thesis
      unfolding eq by (simp add: q c parseString_quoteKey skipWs_delimited[OF d])
  qed
qed

lemma parseValue_stringify:
  "printable v \<Longrightarrow> length (stringify v) \<le> n \<Longrightarrow> delimited r
   \<Longrightarrow> parseValue n (stringify v @ r) = Some (v, r)"
proof (induction v arbitrary: n r)
  case JNull
  then obtain m where "n = Suc m" by (cases n) auto
  then show ?case by (simp add: skipWs_def isWs_def)
next
  case (JBool b)
  then obtain m where "n = Suc m" by (cases n) (auto split: if_splits)
  then show ?case by (simp add: skipWs_def isWs_def)
next
  case (JNum x)
  then have js: "jsNumber x" by simp
  note h = showNumber_head[OF js]
  with JNum.prems obtain m where n: "n = Suc m" by (cases n) auto
  have "parseValue (Suc m) (showNumber x @ r) = parseNumber (showNumber x @ r)"
    using h by (intro parseValue_number) auto
  also have "\<dots> = Some (JNum x, r)" using js JNum.prems(3) by (rule parseNumber_showNumber)
  finally show ?case unfolding n by (simp only: stringify.simps)
next
  case (JStr t)
  then obtain m where n: "n = Suc m" by (cases n) (auto simp: quoteKey_def)
  from JStr.prems have "parseString (quoteKey t @ r) = Some (t, r)"
    by (intro parseString_quoteKey) simp
  then show ?case unfolding n by (simp add: skipWs_def isWs_def quoteKey_def)
next
  case (JArr vs)
  have elements: "vs' \<noteq> [] \<Longrightarrow> set vs' \<subseteq> set vs \<Longrightarrow> length (stringifyElements vs') < m \<Longrightarrow> closes r'
      \<Longrightarrow> parseElements m (stringifyElements vs' @ r') = Some (vs', r')" for vs' m r'
  proof (induction vs' arbitrary: m)
    case Nil
    then show ?case by simp
  next
    case (Cons v vs'')
    from Cons.prems have mem: "v \<in> set vs" by auto
    with JArr.prems have pv: "printable v" by auto
    from stringify_start[OF pv] Cons.prems obtain m' where m: "m = Suc m'"
      by (cases m) auto
    define rr where "rr = (if vs'' = [] then r' else CHR '','' # stringifyElements vs'' @ r')"
    have drr: "delimited rr"
      using Cons.prems(4) by (simp add: rr_def closes_delimited) (simp add: delimited_def)
    have lv: "length (stringify v) \<le> m'"
      using Cons.prems(3) m by (simp split: if_splits)
    have "parseValue m' (stringify v @ rr) = Some (v, rr)"
      using JArr.IH[of v m' rr] mem pv lv drr by simp
    moreover have "vs'' \<noteq> [] \<Longrightarrow> parseElements m' (stringifyElements vs'' @ r') = Some (vs'', r')"
    proof -
      assume ne: "vs'' \<noteq> []"
      have "length (stringifyElements vs'') < m'"
        using Cons.prems(3) m ne by simp
      with Cons.IH[of m'] ne Cons.prems show ?thesis by auto
    qed
    ultimately show ?case
      unfolding m using Cons.prems(4) rr_def by (intro parseElements_step) auto
  qed
  from JArr.prems obtain m where n: "n = Suc m" by (cases n) auto
  show ?case
  proof (cases "vs = []")
    case True
    with n show ?thesis by (simp add: skipWs_def isWs_def)
  next
    case False
    with JArr.prems obtain c t where t: "stringifyElements vs = c # t" and c: "valueStart c"
      using stringifyElements_start[of vs] by auto
    from c have c': "c \<noteq> CHR '']''" by (auto simp: valueStart_def isDigit_def)
    have "parseElements m (stringifyElements vs @ CHR '']'' # r) = Some (vs, CHR '']'' # r)"
      using False JArr.prems n by (intro elements) (auto simp: closes_def)
    with n t c' skipWs_valueStart[OF c] show ?thesis by (simp add: skipWs_def isWs_def)
  qed
next
  case (JObj ms)
  have members: "ms' \<noteq> [] \<Longrightarrow> set ms' \<subseteq> set ms \<Longrightarrow> length (stringifyMembers ms') \<le> m \<Longrightarrow> closes r'
      \<Longrightarrow> parseMembers m (stringifyMembers ms' @ r') = Some (ms', r')" for ms' m r'
  proof (induction ms' arbitrary: m)
    case Nil
    then show ?case by simp
  next
    case (Cons kv ms'')
    obtain k v where kv: "kv = (k, v)" by (cases kv)
    from Cons.prems kv have mem: "(k, v) \<in> set ms" by auto
    with JObj.prems have pk: "\<forall>c \<in> set k. plainChar c" and pv: "printable v" by auto
    from Cons.prems kv obtain m' where m: "m = Suc m'"
      by (cases m) (auto simp: quoteKey_def)
    define rr where "rr = (if ms'' = [] then r' else CHR '','' # stringifyMembers ms'' @ r')"
    have drr: "delimited rr"
      using Cons.prems(4) by (simp add: rr_def closes_delimited) (simp add: delimited_def)
    have lv: "length (stringify v) \<le> m'"
      using Cons.prems(3) kv m by (simp add: quoteKey_def)
    have "parseValue m' (stringify v @ rr) = Some (v, rr)"
      using JObj.IH[of "(k, v)" v m' rr] mem pv lv drr by simp
    moreover have "ms'' \<noteq> [] \<Longrightarrow> parseMembers m' (stringifyMembers ms'' @ r') = Some (ms'', r')"
    proof -
      assume ne: "ms'' \<noteq> []"
      have "length (stringifyMembers ms'') \<le> m'"
        using Cons.prems(3) kv m ne by (simp add: quoteKey_def)
      with Cons.IH[of m'] ne Cons.prems show ?thesis by auto
    qed
    ultimately show ?case
      unfolding kv m using pk Cons.prems(4) rr_def by (intro parseMembers_step) auto
  qed
  from JObj.prems obtain m where n: "n = Suc m" by (cases n) auto
  show ?case
  proof (cases "ms = []")
    case True
    with n show ?thesis by (simp add: skipWs_def isWs_def)
  next
    case False
    then obtain t where t: "stringifyMembers ms = CHR 0x22 # t"
      using stringifyMembers_quote by blast
    have "parseMembers m (stringifyMembers ms @ CHR ''}'' # r) = Some (ms, CHR ''}'' # r)"
      using False JObj.prems n by (intro members) (auto simp: closes_def)
    with n t show ?thesis by (simp add: skipWs_def isWs_def)
  qed
qed

subsection \<open>A stored layout loads back\<close>

lemma isDigit_plain: "isDigit c \<Longrightarrow> plainChar c"
  by (auto simp: isDigit_def plainChar_def)

lemma printable_record:
  assumes "\<forall>v \<in> set (map snd obj). printable (f v)"
  shows "printable (recordToJson f obj)"
  using assms digitsOf_digits
  by (auto simp: recordToJson_def dest!: isDigit_plain[OF bspec[OF digitsOf_digits]])

lemma printable_layoutToJson: "finiteNumbers d \<Longrightarrow> printable (layoutToJson d)"
  by (auto simp: layoutToJson_def finiteNumbers_def positionToJson_def plainChar_def
      list_all_iff intro!: printable_record)

lemma JSON_parse_stringify:
  assumes "finiteNumbers d"
  shows "JSON_parse (JSON_stringify d) = Inr (layoutToJson d)"
proof -
  have "parseValue (Suc (length (stringify (layoutToJson d)))) (stringify (layoutToJson d) @ [])
        = Some (layoutToJson d, [])"
    using assms by (intro parseValue_stringify printable_layoutToJson) (simp_all add: delimited_def)
  then show ?thesis by (simp add: JSON_parse_def JSON_stringify_def skipWs_def)
qed

lemma parseDigits_digitsOf:
  "noDigitAhead r \<Longrightarrow> parseDigits (digitsOf n @ r) = Some (n, r)"
proof -
  assume r: "noDigitAhead r"
  have "hd (digitsOf n) \<noteq> CHR ''0'' \<or> tl (digitsOf n) = []"
  proof (rule ccontr)
    assume "\<not> (hd (digitsOf n) \<noteq> CHR ''0'' \<or> tl (digitsOf n) = [])"
    then have a: "hd (digitsOf n) = CHR ''0''" "tl (digitsOf n) \<noteq> []" by simp_all
    then have "n < 10" using hd_digitsOf_zero by blast
    then have "digitsOf n = [digitChar n]" by (subst digitsOf.simps) simp
    with a show False by simp
  qed
  with parseDigits_run[OF digitsOf_nonempty digitsOf_digits _ r, of n] show ?thesis
    by (simp add: natOfDigits_digitsOf)
qed

lemma asIndex_digitsOf: "asIndex (digitsOf k) = Some k"
  using parseDigits_digitsOf[of "[]" k] by (simp add: asIndex_def noDigitAhead_def)

lemma asMembers_recordToJson:
  "(\<And>v. f (g v) = Some v)
   \<Longrightarrow> asMembers f (map (\<lambda>(k, v). (digitsOf k, g v)) obj) = Some obj"
  by (induction obj) (auto simp: asIndex_digitsOf)

lemma objSet_last:
  "keysAscending (acc @ [(k, v)]) \<Longrightarrow> objSet k v acc = acc @ [(k, v)]"
  by (induction acc) (auto simp: keysAscending_def)

lemma fold_objSet_ascending:
  "keysAscending (acc @ kvs) \<Longrightarrow> fold (\<lambda>(k, v). objSet k v) kvs acc = acc @ kvs"
proof (induction kvs arbitrary: acc)
  case Nil
  then show ?case by simp
next
  case (Cons kv kvs)
  obtain k v where kv: "kv = (k, v)" by (cases kv)
  from Cons.prems have "keysAscending (acc @ [(k, v)])"
    by (simp add: keysAscending_def kv sorted_wrt_append)
  then have "objSet k v acc = acc @ [(k, v)]" by (rule objSet_last)
  with Cons.IH[of "acc @ [(k, v)]"] Cons.prems show ?case by (simp add: kv)
qed

lemma asRecord_recordToJson:
  "(\<And>v. f (g v) = Some v) \<Longrightarrow> keysAscending obj
   \<Longrightarrow> asRecord f (Some (recordToJson g obj)) = Some obj"
  using fold_objSet_ascending[of "[]" obj]
  by (simp add: asRecord_def recordToJson_def asMembers_recordToJson)

lemma asPosition_positionToJson: "asPosition (positionToJson p) = Some p"
  by (simp add: asPosition_def positionToJson_def field_def asNumber_def)

lemma asLayout_layoutToJson: "wellFormed d \<Longrightarrow> asLayout (layoutToJson d) = Some d"
  by (simp add: asLayout_def layoutToJson_def field_def wellFormed_def asMaxZ_def
      asRecord_recordToJson asPosition_positionToJson asNumber_def)

lemma JSON_stringify_nonempty: "JSON_stringify d \<noteq> []"
  by (simp add: JSON_stringify_def layoutToJson_def)

lemma loadData_stored:
  "wellFormed d \<Longrightarrow> finiteNumbers d \<Longrightarrow> \<not> disabled ls
   \<Longrightarrow> items ls ''library-layout'' = Some (JSON_stringify d)
   \<Longrightarrow> loadData ls = Inr (Some d)"
  by (simp add: loadData_def getItem_def JSON_stringify_nonempty JSON_parse_stringify
      asLayout_layoutToJson)

subsection \<open>Printed text of concrete numbers\<close>

lemma isInt_of_nat: "isInt (of_nat n)"
  by (simp add: isInt_def)

lemma fractionDigits_isInt: "isInt x \<Longrightarrow> fractionDigits f x = Some 0"
  by (cases f) simp_all

lemma jsNumber_of_nat: "jsNumber (of_nat n)"
  by (simp add: jsNumber_def fractionDigits_isInt isInt_of_nat)

lemma jsNumber_numeral [simp]: "jsNumber (numeral k)" "jsNumber 0" "jsNumber 1"
  using jsNumber_of_nat[of "numeral k"] jsNumber_of_nat[of 0] jsNumber_of_nat[of 1] by simp_all

lemma jsNumber_minus: "jsNumber (- x) = jsNumber x"
  by (simp add: jsNumber_def)

lemma showNumber_of_nat:
  assumes "0 < n" and "length (digitsOf n) \<le> 21"
  shows "showNumber (of_nat n) = digitsOf n"
proof -
  let ?ds = "digitsOf n"
  let ?s = "stripZeros ?ds"
  have "showNumber (of_nat n) = showPositive 0 (of_nat n)"
    using assms(1) by (simp add: showNumber_def fractionDigits_isInt isInt_of_nat)
  also have "\<dots> = formatDigits ?s (int (length ?ds))"
    by (simp add: showPositive_def Let_def)
  also have "\<dots> = ?s @ replicate (nat (int (length ?ds) - int (length ?s))) CHR ''0''"
    using assms(2) length_stripZeros[of ?ds] by (simp add: formatDigits_def Let_def)
  also have "nat (int (length ?ds) - int (length ?s)) = length ?ds - length ?s"
    by simp
  also have "?s @ replicate (length ?ds - length ?s) CHR ''0'' = ?ds"
    by (rule stripZeros_split[symmetric])
  finally show ?thesis .
qed

lemma showNumber_numeral:
  "length (digitsOf (numeral k)) \<le> 21 \<Longrightarrow> showNumber (numeral k) = digitsOf (numeral k)"
  using showNumber_of_nat[of "numeral k"] by simp

lemma fractionDigits_numeral:
  "fractionDigits (numeral k) x
     = (if isInt x then Some 0 else map_option Suc (fractionDigits (pred_numeral k) (x * 10)))"
  by (simp add: numeral_eq_Suc)

lemma isInt_Ints: "isInt x \<longleftrightarrow> x \<in> \<int>"
proof
  assume "isInt x"
  then have "x = of_int \<lfloor>x\<rfloor>" unfolding isInt_def .
  then show "x \<in> \<int>" by (metis Ints_of_int)
next
  assume "x \<in> \<int>"
  then show "isInt x" unfolding isInt_def by (auto elim: Ints_cases)
qed

lemma isInt_numeral [simp]: "isInt (numeral k)" "isInt 0" "isInt 1"
  by (simp_all add: isInt_Ints)

lemma isInt_minus [simp]: "isInt (- x) = isInt x"
  by (simp add: isInt_Ints)

lemma isInt_divide [simp]:
  "isInt (numeral a / numeral b) \<longleftrightarrow> (numeral b :: int) dvd numeral a"
proof
  assume "isInt (numeral a / numeral b)"
  then obtain z :: int where "(numeral a :: rat) / numeral b = of_int z"
    unfolding isInt_Ints by (auto elim: Ints_cases)
  then have "(numeral a :: rat) = of_int (z * numeral b)" by (simp add: field_simps)
  then have "(of_int (numeral a) :: rat) = of_int (z * numeral b)" by simp
  then have "(numeral a :: int) = z * numeral b" by (simp only: of_int_eq_iff)
  then show "(numeral b :: int) dvd numeral a" by (rule dvdI[OF trans[OF _ mult.commute]])
next
  assume "(numeral b :: int) dvd numeral a"
  then have "(of_int (numeral a) :: rat) / of_int (numeral b) \<in> \<int>"
    by (rule of_int_divide_in_Ints)
  then show "isInt (numeral a / numeral b)" by (simp add: isInt_Ints)
qed

lemma digitChar_simps:
  "digitChar 0 = CHR ''0''" "digitChar 1 = CHR ''1''" "digitChar 2 = CHR ''2''"
  "digitChar 3 = CHR ''3''" "digitChar 4 = CHR ''4''" "digitChar 5 = CHR ''5''"
  "digitChar 6 = CHR ''6''" "digitChar 7 = CHR ''7''" "digitChar 8 = CHR ''8''"
  "digitChar 9 = CHR ''9''" "digitChar (Suc 0) = CHR ''1''"
proof -
  have c: "(of_char a :: nat) = of_char b \<Longrightarrow> a = b" for a b
    by (simp only: of_char_eq_iff)
  show "digitChar 0 = CHR ''0''" "digitChar 1 = CHR ''1''" "digitChar 2 = CHR ''2''"
    "digitChar 3 = CHR ''3''" "digitChar 4 = CHR ''4''" "digitChar 5 = CHR ''5''"
    "digitChar 6 = CHR ''6''" "digitChar 7 = CHR ''7''" "digitChar 8 = CHR ''8''"
    "digitChar 9 = CHR ''9''" "digitChar (Suc 0) = CHR ''1''"
    by (rule c; simp add: digitChar_def)+
qed

lemma parseValue_numeral: "parseValue (numeral k) s = parseValue (Suc (pred_numeral k)) s"
  by (simp only: numeral_eq_Suc)

lemma parseMembers_numeral: "parseMembers (numeral k) s = parseMembers (Suc (pred_numeral k)) s"
  by (simp only: numeral_eq_Suc)

lemma parseElements_numeral: "parseElements (numeral k) s = parseElements (Suc (pred_numeral k)) s"
  by (simp only: numeral_eq_Suc)

lemma isInt_unit_fraction: "isInt (1 / numeral b) \<longleftrightarrow> (numeral b :: int) dvd 1"
  using isInt_divide[of Num.One b] by simp

lemma replicate_pred: "replicate (numeral k) x = x # replicate (pred_numeral k) x"
  by (simp add: numeral_eq_Suc)

text \<open>
  The notations of \<open>Number::toString\<close>: plain up to 21 integer digits, a fraction, leading
  zeros down to \<open>10^-6\<close>, and an exponent otherwise.
\<close>

lemma showNumber_examples:
  "showNumber 0 = ''0''"
  "showNumber 1500 = ''1500''"
  "showNumber 63.5 = ''63.5''"
  "showNumber (- 18.25) = ''-18.25''"
  "showNumber 0.000001 = ''0.000001''"
  "showNumber 0.00000015 = ''1.5e-7''"
  "showNumber 0.0000001 = ''1e-7''"
  "showNumber 100000000000000000000 = ''100000000000000000000''"
  "showNumber 1000000000000000000000 = ''1e+21''"
  "showNumber 1230000000000000000000 = ''1.23e+21''"
  by (simp_all add: showNumber_def maxFractionDigits_def fractionDigits_numeral
      showPositive_def digitsOf.simps stripZeros_def formatDigits_def exponentPart_def
      digitChar_simps isInt_unit_fraction replicate_pred)

text \<open>
  \<open>JSON.parse\<close> reads a fraction, an exponent and whitespace between tokens, and refuses a
  leading zero, a point without digits and a trailing comma.
\<close>

lemma JSON_parse_examples:
  "JSON_parse ''6.35e1'' = Inr (JNum 63.5)"
  "JSON_parse '' [1, 2.5 ,true,null ] '' = Inr (JArr [JNum 1, JNum 2.5, JBool True, JNull])"
  "JSON_parse ''-0.5E-1'' = Inr (JNum (- 0.05))"
  "JSON_parse ''01'' = Inl SyntaxError"
  "JSON_parse ''1.'' = Inl SyntaxError"
  "JSON_parse ''.5'' = Inl SyntaxError"
  "JSON_parse ''[1,]'' = Inl SyntaxError"
  "JSON_parse '''' = Inl SyntaxError"
  by (simp_all add: JSON_parse_def parseValue_numeral parseMembers_numeral parseElements_numeral
      skipWs_def isWs_def parseString_def plainChar_def
      parseNumber_def parseUnsigned_def parseDigits_def parseFraction_def parseExponent_def
      parseSign_def isDigit_def natOfDigits_def digitVal_def scale10_def Let_def)

subsection \<open>Writes to storage\<close>

lemma setItem_eq:
  "setItem k v ls = (if fits v ls then Inr (ls\<lparr>items := (items ls)(k \<mapsto> v)\<rparr>)
                     else Inl (if disabled ls then SecurityError else QuotaExceededError))"
  by (auto simp: setItem_def fits_def)

lemma trySave_eq:
  "trySave d st = (if fits (JSON_stringify d) (localStorage st) then Inr (stored d st)
                   else Inl (if disabled (localStorage st) then SecurityError else QuotaExceededError))"
  by (simp add: trySave_def setItem_eq stored_def Let_def)

lemma save_eq:
  "save d st = Inr (if fits (JSON_stringify d) (localStorage st) then stored d st else st)"
  by (simp add: save_def trySave_eq)

subsection \<open>The layout store\<close>


lemma fits_example: "fits (JSON_stringify exampleLayout) emptyStorage"
  by (simp add: fits_def emptyStorage_def JSON_stringify_def layoutToJson_def recordToJson_def
      positionToJson_def exampleLayout_def showNumber_numeral quoteKey_def digitsOf.simps)

text \<open>
  Claim C5. \<open>save\<close> never raises: its outcome is always a store. When the write to
  storage fails, the failure is swallowed and the store is exactly as before (data,
  snapshot, storage, and no listener is called). When the write succeeds, the data and
  the snapshot are the new state, and every subscribed listener is called once, at a
  moment when \<open>getSnapshot\<close> already returns the new state.
\<close>

theorem save_swallows_and_notifies:
  "(\<exists>st'. save d st = Inr st')
   \<and> (\<forall>e. setItem ''library-layout'' (JSON_stringify d) (localStorage st) = Inl e
         \<longrightarrow> save d st = Inr st)
   \<and> (\<forall>ls. setItem ''library-layout'' (JSON_stringify d) (localStorage st) = Inr ls
         \<longrightarrow> (\<exists>st'. save d st = Inr st'
               \<and> localStorage st' = ls
               \<and> data st' = Some d
               \<and> getSnapshot st' = \<lparr>snapData = Some d, snapIsLoaded = isLoaded st\<rparr>
               \<and> listeners st' = listeners st
               \<and> notified st' = notified st @ map (\<lambda>cb. (cb, getSnapshot st')) (listeners st)
               \<and> (distinct (listeners st) \<longrightarrow>
                    (\<forall>cb \<in> set (listeners st).
                       count_list (map fst (notified st')) cb
                       = count_list (map fst (notified st)) cb + 1))))"
proof (intro conjI allI impI)
  show "\<exists>st'. save d st = Inr st'" by (simp add: save_eq)
next
  fix e assume "setItem ''library-layout'' (JSON_stringify d) (localStorage st) = Inl e"
  then show "save d st = Inr st"
    by (simp add: save_def trySave_def)
next
  fix ls assume ok: "setItem ''library-layout'' (JSON_stringify d) (localStorage st) = Inr ls"
  then have f: "fits (JSON_stringify d) (localStorage st)"
    and ls: "ls = (localStorage st)\<lparr>items := (items (localStorage st))(''library-layout'' \<mapsto> JSON_stringify d)\<rparr>"
    by (auto simp: setItem_eq split: if_splits)
  have once: "count_list (map fst (map (\<lambda>cb. (cb, x)) xs)) cb = 1"
    if "distinct xs" "cb \<in> set xs" for xs :: "nat list" and cb and x :: Snapshot
    using that by (induction xs) (auto simp: comp_def count_list_0_iff)
  have "save d st = Inr (stored d st)" using f by (simp add: save_eq)
  moreover have "localStorage (stored d st) = ls" by (simp add: stored_def ls)
  moreover have "data (stored d st) = Some d" by (simp add: stored_def)
  moreover have snap: "getSnapshot (stored d st) = \<lparr>snapData = Some d, snapIsLoaded = isLoaded st\<rparr>"
    by (simp add: stored_def getSnapshot_def)
  moreover have "listeners (stored d st) = listeners st" by (simp add: stored_def)
  moreover have n: "notified (stored d st)
      = notified st @ map (\<lambda>cb. (cb, getSnapshot (stored d st))) (listeners st)"
    unfolding snap by (simp add: stored_def)
  moreover have "distinct (listeners st) \<longrightarrow>
       (\<forall>cb \<in> set (listeners st).
          count_list (map fst (notified (stored d st))) cb
          = count_list (map fst (notified st)) cb + 1)"
    unfolding n using once by (auto simp del: map_map)
  ultimately show "\<exists>st'. save d st = Inr st'
               \<and> localStorage st' = ls
               \<and> data st' = Some d
               \<and> getSnapshot st' = \<lparr>snapData = Some d, snapIsLoaded = isLoaded st\<rparr>
               \<and> listeners st' = listeners st
               \<and> notified st' = notified st @ map (\<lambda>cb. (cb, getSnapshot st')) (listeners st)
               \<and> (distinct (listeners st) \<longrightarrow>
                    (\<forall>cb \<in> set (listeners st).
                       count_list (map fst (notified st')) cb
                       = count_list (map fst (notified st)) cb + 1))"
    by blast
qed


lemma layoutStore_empty:
  "layoutStore True emptyStorage =
     \<lparr>listeners = [], data = None, isLoaded = True,
      snapshot = \<lparr>snapData = None, snapIsLoaded = True\<rparr>,
      localStorage = emptyStorage, notified = []\<rparr>"
  by (simp add: layoutStore_def loadData_def getItem_def emptyStorage_def JSON_parse_def asLayout_def
      skipWs_def isWs_def)

theorem save_swallows_and_notifies_witness:
  "save exampleLayout (subscribe 0 (layoutStore True fullStorage))
     = Inr (subscribe 0 (layoutStore True fullStorage))
   \<and> (\<exists>st'. save exampleLayout (subscribe 0 (layoutStore True emptyStorage)) = Inr st'
         \<and> data st' = Some exampleLayout
         \<and> getSnapshot st' = \<lparr>snapData = Some exampleLayout, snapIsLoaded = True\<rparr>
         \<and> notified st' = [(0, getSnapshot st')]
         \<and> count_list (map fst (notified st')) 0 = 1)"
proof
  have "setItem ''library-layout'' (JSON_stringify exampleLayout)
          (localStorage (subscribe 0 (layoutStore True fullStorage))) = Inl QuotaExceededError"
    by (simp add: setItem_def subscribe_def layoutStore_def fullStorage_def Let_def
        JSON_stringify_nonempty)
  with save_swallows_and_notifies[of exampleLayout "subscribe 0 (layoutStore True fullStorage)"]
  show "save exampleLayout (subscribe 0 (layoutStore True fullStorage))
     = Inr (subscribe 0 (layoutStore True fullStorage))"
    by blast
next
  let ?st = "subscribe 0 (layoutStore True emptyStorage)"
  have st: "listeners ?st = [0]" "notified ?st = []" "isLoaded ?st" "localStorage ?st = emptyStorage"
    by (simp_all add: subscribe_def layoutStore_empty)
  have "setItem ''library-layout'' (JSON_stringify exampleLayout) (localStorage ?st)
        = Inr (emptyStorage\<lparr>items := (items emptyStorage)(''library-layout'' \<mapsto> JSON_stringify exampleLayout)\<rparr>)"
    using fits_example by (simp add: setItem_eq st)
  with save_swallows_and_notifies[of exampleLayout ?st]
  obtain st' where "save exampleLayout ?st = Inr st'" "data st' = Some exampleLayout"
    "getSnapshot st' = \<lparr>snapData = Some exampleLayout, snapIsLoaded = isLoaded ?st\<rparr>"
    "notified st' = notified ?st @ map (\<lambda>cb. (cb, getSnapshot st')) (listeners ?st)"
    "distinct (listeners ?st) \<longrightarrow>
       (\<forall>cb \<in> set (listeners ?st).
          count_list (map fst (notified st')) cb = count_list (map fst (notified ?st)) cb + 1)"
    by blast
  then show "\<exists>st'. save exampleLayout ?st = Inr st'
         \<and> data st' = Some exampleLayout
         \<and> getSnapshot st' = \<lparr>snapData = Some exampleLayout, snapIsLoaded = True\<rparr>
         \<and> notified st' = [(0, getSnapshot st')]
         \<and> count_list (map fst (notified st')) 0 = 1"
    by (intro exI[of _ st']) (simp add: st)
qed

text \<open>
  The listeners of a store are distinct: the initialiser starts with none, and \<open>subscribe\<close>
  adds a listener only when it is new (the source keeps them in a \<open>Set\<close>).
\<close>

lemma distinct_listeners_layoutStore: "distinct (listeners (layoutStore window ls))"
  by (simp add: layoutStore_def Let_def)

lemma distinct_listeners_subscribe:
  "distinct (listeners st) \<Longrightarrow> distinct (listeners (subscribe cb st))"
  by (simp add: subscribe_def)

lemma distinct_listeners_unsubscribe:
  "distinct (listeners st) \<Longrightarrow> distinct (listeners (unsubscribe cb st))"
  by (simp add: unsubscribe_def distinct_removeAll)

lemma listeners_save: "save d st = Inr st' \<Longrightarrow> listeners st' = listeners st"
  by (auto simp: save_eq stored_def split: if_splits)

text \<open>
  Claim C4. When \<open>save\<close> has written the text of a layout to storage, a fresh process
  that initialises the store from that storage loads a layout equal to the one saved.
  \<open>wellFormed\<close> is the representation invariant of the model's objects (index keys
  ascending and distinct), which every JavaScript object satisfies. \<open>finiteNumbers\<close> says
  that the coordinates, z-indexes and counter of the layout are numbers of the language:
  decimals with a finite expansion, fractions included, as every finite double is. The
  text is the one \<open>JSON.stringify\<close> prints, with each number in the notation of
  \<open>Number::toString\<close> (plain, with a fraction, or with an exponent). The values \<open>NaN\<close> and
  \<open>\<plusminus>Infinity\<close>, which JSON cannot write, are not covered: they are the claim's
  \<open>modulo JSON numeric representation\<close>.
\<close>

theorem save_then_load_roundtrip:
  assumes "wellFormed d" and "finiteNumbers d"
    and "setItem ''library-layout'' (JSON_stringify d) (localStorage st) = Inr ls"
  shows "\<exists>st'. save d st = Inr st' \<and> localStorage st' = ls
           \<and> loadData ls = Inr (Some d)
           \<and> data (layoutStore True ls) = Some d
           \<and> getSnapshot (layoutStore True ls) = \<lparr>snapData = Some d, snapIsLoaded = True\<rparr>"
proof -
  from assms(3) have f: "fits (JSON_stringify d) (localStorage st)"
    and ls: "ls = (localStorage st)\<lparr>items := (items (localStorage st))(''library-layout'' \<mapsto> JSON_stringify d)\<rparr>"
    by (auto simp: setItem_eq split: if_splits)
  from f have "\<not> disabled ls" by (simp add: ls fits_def)
  moreover have "items ls ''library-layout'' = Some (JSON_stringify d)" by (simp add: ls)
  ultimately have load: "loadData ls = Inr (Some d)"
    using assms(1,2) by (intro loadData_stored)
  have "save d st = Inr (stored d st)" using f by (simp add: save_eq)
  moreover have "localStorage (stored d st) = ls" by (simp add: stored_def ls)
  ultimately show ?thesis
    using load by (simp add: layoutStore_def getSnapshot_def Let_def)
qed

lemma wellFormed_measured: "wellFormed measuredLayout"
  by (simp add: wellFormed_def keysAscending_def measuredLayout_def)

lemma finiteNumbers_measured: "finiteNumbers measuredLayout"
  by (simp add: finiteNumbers_def measuredLayout_def jsNumber_def maxFractionDigits_def
      fractionDigits_numeral)

lemma text_measured:
  "filter (\<lambda>c. c \<noteq> CHR 0x22) (JSON_stringify measuredLayout)
     = ''{positions:{11:{x:63.5,y:18.25},22:{x:-12.75,y:1040.0625}},zIndexes:{11:21,22:22},maxZ:22}''"
  by (simp add: JSON_stringify_def layoutToJson_def recordToJson_def positionToJson_def
      measuredLayout_def quoteKey_def showNumber_def maxFractionDigits_def fractionDigits_numeral
      showPositive_def digitsOf.simps stripZeros_def formatDigits_def digitChar_simps)

lemma fits_measured: "fits (JSON_stringify measuredLayout) emptyStorage"
proof -
  have "length (filter (\<lambda>c. c = CHR 0x22) (JSON_stringify measuredLayout)) = 22"
    by (simp add: JSON_stringify_def layoutToJson_def recordToJson_def positionToJson_def
      measuredLayout_def quoteKey_def showNumber_def maxFractionDigits_def fractionDigits_numeral
      showPositive_def digitsOf.simps stripZeros_def formatDigits_def digitChar_simps)
  moreover have "length (filter (\<lambda>c. c \<noteq> CHR 0x22) (JSON_stringify measuredLayout)) = 90"
    unfolding text_measured by simp
  moreover have "length (JSON_stringify measuredLayout)
      = length (filter (\<lambda>c. c = CHR 0x22) (JSON_stringify measuredLayout))
        + length (filter (\<lambda>c. c \<noteq> CHR 0x22) (JSON_stringify measuredLayout))"
    by (rule sum_length_filter_compl[symmetric])
  ultimately show ?thesis by (simp add: fits_def emptyStorage_def)
qed

theorem save_then_load_roundtrip_witness:
  "wellFormed measuredLayout \<and> finiteNumbers measuredLayout
   \<and> setItem ''library-layout'' (JSON_stringify measuredLayout)
         (localStorage (layoutStore True emptyStorage)) = Inr (storageWith measuredLayout)
   \<and> (\<exists>st'. save measuredLayout (layoutStore True emptyStorage) = Inr st'
         \<and> localStorage st' = storageWith measuredLayout
         \<and> loadData (storageWith measuredLayout) = Inr (Some measuredLayout)
         \<and> data (layoutStore True (storageWith measuredLayout)) = Some measuredLayout
         \<and> getSnapshot (layoutStore True (storageWith measuredLayout))
             = \<lparr>snapData = Some measuredLayout, snapIsLoaded = True\<rparr>)"
proof -
  have w: "setItem ''library-layout'' (JSON_stringify measuredLayout)
          (localStorage (layoutStore True emptyStorage)) = Inr (storageWith measuredLayout)"
    using fits_measured by (simp add: setItem_eq layoutStore_empty storageWith_def)
  from save_then_load_roundtrip[OF wellFormed_measured finiteNumbers_measured w]
    wellFormed_measured finiteNumbers_measured w
  show ?thesis by blast
qed

text \<open>
  A stored text need not be one that \<open>save\<close> wrote. A text with whitespace between its
  tokens, a fraction and an exponent loads as the layout it denotes; a missing field has
  the default of its read (\<open>?? {}\<close>, \<open>?? 20\<close>).
\<close>

lemma loadData_spaced_text:
  "loadData (emptyStorage\<lparr>items := [''library-layout'' \<mapsto>
       ''{ '' @ quoteKey ''zIndexes'' @ '' : { '' @ quoteKey ''11'' @ '' : 2.15E1 } , ''
        @ quoteKey ''positions'' @ '' : {'' @ quoteKey ''11'' @ '':{''
        @ quoteKey ''y'' @ '':-1825e-2, '' @ quoteKey ''x'' @ '':63.5}}} '']\<rparr>)
   = Inr (Some \<lparr>positions = [(11, \<lparr>posX = 63.5, posY = - 18.25\<rparr>)],
                zIndexes = [(11, 21.5)], maxZ = 20\<rparr>)"
  by (simp add: loadData_def getItem_def emptyStorage_def JSON_parse_def quoteKey_def
      parseValue_numeral parseMembers_numeral skipWs_def isWs_def parseString_def plainChar_def
      parseNumber_def parseUnsigned_def parseDigits_def parseFraction_def parseExponent_def
      parseSign_def isDigit_def natOfDigits_def digitVal_def scale10_def Let_def
      asLayout_def asRecord_def asMaxZ_def field_def asPosition_def asNumber_def asIndex_def)

subsection \<open>Objects\<close>



lemma keys_objSet: "set (map fst (objSet k v obj)) = insert k (set (map fst obj))"
  by (induction obj) (fastforce split: if_splits)+

lemma values_objSet: "set (map snd (objSet k v obj)) \<subseteq> insert v (set (map snd obj))"
  by (induction obj) (fastforce split: if_splits)+

lemma keysAscending_objSet: "keysAscending obj \<Longrightarrow> keysAscending (objSet k v obj)"
proof (induction obj)
  case Nil
  then show ?case by (simp add: keysAscending_def)
next
  case (Cons kv obj)
  obtain k' v' where kv: "kv = (k', v')" by (cases kv)
  from Cons.prems have above: "\<forall>x \<in> set (map fst obj). k' < x" and tl: "keysAscending obj"
    by (simp_all add: keysAscending_def kv)
  show ?case
  proof (cases "k = k'")
    case True
    with Cons.prems show ?thesis by (simp add: keysAscending_def kv)
  next
    case False
    show ?thesis
    proof (cases "k < k'")
      case True
      with above have "\<forall>x \<in> set (map fst obj). k < x" by auto
      with True Cons.prems show ?thesis by (simp add: keysAscending_def kv)
    next
      case gt: False
      with False have "k' < k" by simp
      with above have "\<forall>x \<in> set (map fst (objSet k v obj)). k' < x"
        unfolding keys_objSet by simp
      moreover from Cons.IH tl have "keysAscending (objSet k v obj)" by simp
      ultimately show ?thesis
        using False gt by (simp add: keysAscending_def kv)
    qed
  qed
qed

subsection \<open>What the handlers return\<close>

lemma persistLayout_eq:
  "persistLayout p z m s = Inr (persisted \<lparr>positions = p, zIndexes = z, maxZ = m\<rparr> s)"
  by (simp add: persistLayout_def save_eq persisted_def)

lemma layout_persisted:
  "layout (persisted d s)
     = (if fits (JSON_stringify d) (localStorage (store s)) then Some d else layout s)"
  by (simp add: persisted_def layout_def getSnapshot_def stored_def)

lemma quota_persisted [simp]:
  "fits v (localStorage (store (persisted d s))) = fits v (localStorage (store s))"
  by (simp add: persisted_def stored_def fits_def)

lemma fields_persisted [simp]:
  "focusedId (persisted d s) = focusedId s"
  "focusOrigin (persisted d s) = focusOrigin s"
  "focusPhase (persisted d s) = focusPhase s"
  "draggingId (persisted d s) = draggingId s"
  "dragPos (persisted d s) = dragPos s"
  "dragStartRef (persisted d s) = dragStartRef s"
  "didDragRef (persisted d s) = didDragRef s"
  "maxZRef (persisted d s) = maxZ d"
  "clock (persisted d s) = clock s"
  "timeouts (persisted d s) = timeouts s"
  "frameRequests (persisted d s) = frameRequests s"
  by (simp_all add: persisted_def)

lemma handlePointerDown_eq:
  "handlePointerDown i e rect s =
     Inr (persisted \<lparr>positions = positionsOf s,
                     zIndexes = objSet i (maxZRef s + 1) (zIndexesOf s),
                     maxZ = maxZRef s + 1\<rparr> (grabbed i e rect s))"
  by (simp add: handlePointerDown_def persistLayout_eq grabbed_def Let_def)

lemma handleEnd_eq:
  "handleEnd s =
     Inr (case (draggingId s, dragPos s) of
            (Some i, Some p) \<Rightarrow>
              endDrag (persisted \<lparr>positions = objSet i p (positionsOf s),
                                 zIndexes = objSet i (maxZRef s + 1) (zIndexesOf s),
                                 maxZ = maxZRef s + 1\<rparr> s)
          | _ \<Rightarrow> endDrag s)"
  by (simp add: handleEnd_def persistLayout_eq Let_def split: option.splits)

lemma step_PointerEnd_commit:
  "draggingId s = Some i \<Longrightarrow> dragPos s = Some p
   \<Longrightarrow> step PointerEnd s =
       Inr (endDrag (persisted \<lparr>positions = objSet i p (positionsOf s),
                                 zIndexes = objSet i (maxZRef s + 1) (zIndexesOf s),
                                 maxZ = maxZRef s + 1\<rparr> s))"
  by (simp add: handleEnd_eq)

lemma step_total: "\<exists>s'. step ev s = Inr s'"
  by (cases ev) (simp_all add: handlePointerDown_eq handleEnd_eq)

lemma layout_grabbed [simp]: "layout (grabbed i e rect s) = layout s"
  by (simp add: grabbed_def layout_def)

lemma layout_endDrag [simp]: "layout (endDrag s) = layout s"
  by (simp add: endDrag_def layout_def)

lemma store_grabbed [simp]: "store (grabbed i e rect s) = store s"
  by (simp add: grabbed_def)

lemma of_layout:
  "positionsOf s = (case layout s of None \<Rightarrow> [] | Some l \<Rightarrow> positions l)"
  "zIndexesOf s = (case layout s of None \<Rightarrow> [] | Some l \<Rightarrow> zIndexes l)"
  by (simp_all add: positionsOf_def zIndexesOf_def)

subsection \<open>A press and release without movement\<close>


lemma firstVisit_fields:
  "layout firstVisit = None" "positionsOf firstVisit = []" "zIndexesOf firstVisit = []"
  "localStorage (store firstVisit) = emptyStorage" "maxZRef firstVisit = 20"
  "focusedId firstVisit = None" "focusOrigin firstVisit = None" "focusPhase firstVisit = Idle"
  "didDragRef firstVisit = False" "draggingId firstVisit = None"
  "timeouts firstVisit = []" "clock firstVisit = 0" "frameRequests firstVisit = 0"
  by (simp_all add: firstVisit_def mount_def layoutStore_empty subscribe_def layout_def
      getSnapshot_def positionsOf_def zIndexesOf_def serverSnapshot_def)

lemma fid_fragments:
  "fid (fragments ! 0) = 11" "fid (fragments ! 2) = 19" "fid (fragments ! 3) = 13"
  "fid (fragments ! 4) = 22"
  by (simp_all add: fragments_def)


lemma fits_grab11:
  "fits (JSON_stringify \<lparr>positions = [], zIndexes = [(11, 21)], maxZ = 21\<rparr>) emptyStorage"
  by (simp add: fits_def emptyStorage_def JSON_stringify_def layoutToJson_def recordToJson_def
      positionToJson_def showNumber_numeral quoteKey_def digitsOf.simps)



text \<open>
  On the focused card the surface does not call \<open>handlePointerDown\<close>: the press is
  ignored, and so is the release when no drag is in progress.
\<close>

lemma press_on_focused_card_ignored:
  "focusedId s = Some (fid item) \<Longrightarrow> draggingId s = None
   \<Longrightarrow> run [PointerDown item e rect, PointerEnd] s = Inr s"
  by simp

subsection \<open>Dragging past the threshold\<close>

lemma handleMove_fields:
  assumes "dragStartRef s = Some d"
  shows "dragStartRef (handleMove m s) = Some d"
    "draggingId (handleMove m s) = draggingId s"
    "didDragRef (handleMove m s) = (didDragRef s \<or> movedPast d m)"
    "dragPos (handleMove m s) \<noteq> None"
    "focusedId (handleMove m s) = focusedId s"
    "focusOrigin (handleMove m s) = focusOrigin s"
    "focusPhase (handleMove m s) = focusPhase s"
    "layout (handleMove m s) = layout s"
    "maxZRef (handleMove m s) = maxZRef s"
  using assms by (simp_all add: handleMove_def Let_def movedPast_def layout_def)

lemma run_moves:
  assumes "draggingId s = Some i" and "dragStartRef s = Some d" and "dragPos s \<noteq> None"
  shows "\<exists>s'. run (map PointerMove moves) s = Inr s'
      \<and> draggingId s' = Some i \<and> dragStartRef s' = Some d \<and> dragPos s' \<noteq> None
      \<and> (didDragRef s' \<longleftrightarrow> didDragRef s \<or> (\<exists>m \<in> set moves. movedPast d m))
      \<and> focusedId s' = focusedId s \<and> focusOrigin s' = focusOrigin s
      \<and> focusPhase s' = focusPhase s"
  using assms
proof (induction moves arbitrary: s)
  case Nil
  then show ?case by simp
next
  case (Cons m moves)
  let ?s = "handleMove m s"
  from Cons.prems have st: "step (PointerMove m) s = Inr ?s" by simp
  from Cons.prems have "draggingId ?s = Some i" "dragStartRef ?s = Some d" "dragPos ?s \<noteq> None"
    by (simp_all add: handleMove_fields)
  from Cons.IH[OF this] obtain s' where
    "run (map PointerMove moves) ?s = Inr s'" "draggingId s' = Some i" "dragStartRef s' = Some d"
    "dragPos s' \<noteq> None"
    "didDragRef s' \<longleftrightarrow> didDragRef ?s \<or> (\<exists>m \<in> set moves. movedPast d m)"
    "focusedId s' = focusedId ?s" "focusOrigin s' = focusOrigin ?s" "focusPhase s' = focusPhase ?s"
    by blast
  with st Cons.prems(2) show ?case
    by (intro exI[of _ s']) (auto simp: handleMove_fields)
qed

text \<open>
  Claim C2. After a pointer-down on a card that is not focused, if some pointer move of
  the gesture is more than 3 pixels away from the gesture origin on either axis, the
  did-drag flag is set and is still set after the pointer-end; the click that follows
  changes nothing but the flag, which it resets to false, so the focused id, the focus
  origin and the focus phase are the ones from before the gesture.
\<close>

theorem drag_suppresses_focus:
  assumes nf: "focusedId s \<noteq> Some (fid item)"
    and far: "\<exists>m \<in> set moves. \<bar>clientX m - clientX e\<bar> > 3 \<or> \<bar>clientY m - clientY e\<bar> > 3"
  shows "\<exists>s1 s2 s3.
       step (PointerDown item e rect) s = Inr s1
     \<and> run (map PointerMove moves) s1 = Inr s2 \<and> didDragRef s2
     \<and> step PointerEnd s2 = Inr s3 \<and> didDragRef s3
     \<and> (\<forall>item' rect'. step (Click item' rect') s3 = Inr (s3\<lparr>didDragRef := False\<rparr>))
     \<and> focusedId s3 = focusedId s \<and> focusOrigin s3 = focusOrigin s
     \<and> focusPhase s3 = focusPhase s"
proof -
  let ?d = "\<lparr>startX = clientX e, startY = clientY e, elemX = rectLeft rect, elemY = rectTop rect\<rparr>"
  let ?s1 = "persisted \<lparr>positions = positionsOf s,
                        zIndexes = objSet (fid item) (maxZRef s + 1) (zIndexesOf s),
                        maxZ = maxZRef s + 1\<rparr> (grabbed (fid item) e rect s)"
  have s1: "step (PointerDown item e rect) s = Inr ?s1"
    using nf by (simp add: handlePointerDown_eq)
  have f1: "draggingId ?s1 = Some (fid item)" "dragStartRef ?s1 = Some ?d" "dragPos ?s1 \<noteq> None"
    "focusedId ?s1 = focusedId s" "focusOrigin ?s1 = focusOrigin s" "focusPhase ?s1 = focusPhase s"
    by (simp_all add: grabbed_def)
  from far have far': "\<exists>m \<in> set moves. movedPast ?d m" by (simp add: movedPast_def)
  from run_moves[OF f1(1) f1(2) f1(3), of moves] far' obtain s2 where
    s2: "run (map PointerMove moves) ?s1 = Inr s2" "draggingId s2 = Some (fid item)"
      "dragPos s2 \<noteq> None" "didDragRef s2"
      "focusedId s2 = focusedId ?s1" "focusOrigin s2 = focusOrigin ?s1"
      "focusPhase s2 = focusPhase ?s1"
    by blast
  from s2(3) obtain p where p: "dragPos s2 = Some p" by blast
  let ?s3 = "endDrag (persisted \<lparr>positions = objSet (fid item) p (positionsOf s2),
                                 zIndexes = objSet (fid item) (maxZRef s2 + 1) (zIndexesOf s2),
                                 maxZ = maxZRef s2 + 1\<rparr> s2)"
  have s3: "step PointerEnd s2 = Inr ?s3"
    by (rule step_PointerEnd_commit[OF s2(2) p])
  have f3: "didDragRef ?s3" "focusedId ?s3 = focusedId s" "focusOrigin ?s3 = focusOrigin s"
    "focusPhase ?s3 = focusPhase s"
    using s2 f1 by (simp_all add: endDrag_def)
  from f3(1) have "\<forall>item' rect'. step (Click item' rect') ?s3 = Inr (?s3\<lparr>didDragRef := False\<rparr>)"
    by (simp add: handleClick_def)
  with s1 s2(1) s2(4) s3 f3 show ?thesis by blast
qed

theorem drag_suppresses_focus_witness:
  "focusedId firstVisit \<noteq> Some (fid (fragments ! 4))
   \<and> \<bar>clientX (MouseEvent 270 190) - clientX (MouseEvent 120 110)\<bar> > 3
   \<and> (\<exists>s1 s2 s3.
       step (PointerDown (fragments ! 4) (MouseEvent 120 110) \<lparr>rectLeft = 100, rectTop = 100\<rparr>)
         firstVisit = Inr s1
     \<and> run (map PointerMove [MouseEvent 121 110, MouseEvent 270 190]) s1 = Inr s2 \<and> didDragRef s2
     \<and> step PointerEnd s2 = Inr s3
     \<and> step (Click (fragments ! 4) \<lparr>rectLeft = 250, rectTop = 180\<rparr>) s3
         = Inr (s3\<lparr>didDragRef := False\<rparr>)
     \<and> focusedId s3 = None \<and> focusOrigin s3 = None \<and> focusPhase s3 = Idle)"
proof -
  have nf: "focusedId firstVisit \<noteq> Some (fid (fragments ! 4))"
    by (simp add: firstVisit_fields)
  have far: "\<exists>m \<in> set [MouseEvent 121 110, MouseEvent 270 190].
      \<bar>clientX m - clientX (MouseEvent 120 110)\<bar> > 3 \<or> \<bar>clientY m - clientY (MouseEvent 120 110)\<bar> > 3"
    by simp
  from drag_suppresses_focus[OF nf far, of "\<lparr>rectLeft = 100, rectTop = 100\<rparr>"]
  obtain s1 s2 s3 where
    "step (PointerDown (fragments ! 4) (MouseEvent 120 110) \<lparr>rectLeft = 100, rectTop = 100\<rparr>)
       firstVisit = Inr s1"
    "run (map PointerMove [MouseEvent 121 110, MouseEvent 270 190]) s1 = Inr s2" "didDragRef s2"
    "step PointerEnd s2 = Inr s3"
    "\<forall>item' rect'. step (Click item' rect') s3 = Inr (s3\<lparr>didDragRef := False\<rparr>)"
    "focusedId s3 = focusedId firstVisit" "focusOrigin s3 = focusOrigin firstVisit"
    "focusPhase s3 = focusPhase firstVisit"
    by blast
  moreover have "\<bar>clientX (MouseEvent 270 190) - clientX (MouseEvent 120 110)\<bar> > 3" by simp
  ultimately show ?thesis using nf by (simp only: firstVisit_fields) blast
qed

subsection \<open>Focus lifecycle\<close>

lemma fold_closeCallback:
  "fold (\<lambda>d. closeCallback) ds s = (if ds = [] then s else closeCallback s)"
proof (induction ds arbitrary: s)
  case Nil
  then show ?case by simp
next
  case (Cons d ds)
  have "closeCallback (closeCallback s) = closeCallback s" by (simp add: closeCallback_def)
  with Cons show ?case by simp
qed

lemma funpow_openCallback:
  "(openCallback ^^ n) s = (if n = 0 then s else openCallback s)"
proof (induction n)
  case 0
  then show ?case by simp
next
  case (Suc n)
  have "openCallback (openCallback s) = openCallback s" by (simp add: openCallback_def)
  with Suc show ?case by simp
qed

lemma elapse_due:
  "\<exists>d \<in> set (timeouts s). d \<le> clock s + t
   \<Longrightarrow> focusedId (elapse t s) = None \<and> focusOrigin (elapse t s) = None
       \<and> focusPhase (elapse t s) = Idle"
  by (auto simp: elapse_def Let_def fold_closeCallback closeCallback_def filter_empty_conv)

lemma elapse_not_due:
  "\<forall>d \<in> set (timeouts s). clock s + t < d
   \<Longrightarrow> focusedId (elapse t s) = focusedId s \<and> focusOrigin (elapse t s) = focusOrigin s
       \<and> focusPhase (elapse t s) = focusPhase s"
proof -
  assume "\<forall>d \<in> set (timeouts s). clock s + t < d"
  then have "filter (\<lambda>d. d \<le> clock s + t) (timeouts s) = []"
    by (auto simp: filter_empty_conv)
  then show ?thesis by (simp add: elapse_def Let_def)
qed

lemma focusInv_mount: "focusInv (mount first st)"
  by (simp add: focusInv_def mount_def)

lemma focusInv_step:
  assumes "focusInv s" and "step ev s = Inr s'"
  shows "focusInv s'"
proof (cases ev)
  case (PointerDown item e rect)
  with assms show ?thesis
    by (auto simp: focusInv_def handlePointerDown_eq grabbed_def split: if_splits)
next
  case (PointerMove e)
  with assms show ?thesis
    by (cases "dragStartRef s") (auto simp: focusInv_def handleMove_def Let_def split: if_splits)
next
  case PointerEnd
  with assms show ?thesis
    by (auto simp: focusInv_def handleEnd_eq endDrag_def split: if_splits option.splits)
next
  case (Click item rect)
  with assms show ?thesis
    by (auto simp: focusInv_def handleClick_def split: if_splits)
next
  case OverlayClick
  with assms show ?thesis
    by (auto simp: focusInv_def closeFocus_def split: if_splits)
next
  case AnimationFrame
  with assms show ?thesis
    by (auto simp: focusInv_def animationFrame_def funpow_openCallback openCallback_def
        split: if_splits)
next
  case (Elapse t)
  with assms show ?thesis
    by (auto simp: focusInv_def elapse_def Let_def fold_closeCallback closeCallback_def
        split: if_splits)
qed

lemma reachable_focusInv: "reachable s \<Longrightarrow> focusInv s"
  by (induction rule: reachable.induct) (auto simp: focusInv_mount intro: focusInv_step)

text \<open>
  Claim C3. From a reachable state in the idle phase with the did-drag flag false: a
  click on card \<open>a\<close> gives phase opening at once, with \<open>a\<close> focused and its rectangle as the
  origin; the next animation frame gives phase open; a second click on \<open>a\<close> gives phase
  closing at once and 450 ms later the phase is idle with the focused id and the origin
  cleared (and, when no older timer is pending, the phase stays closing for any shorter
  time); a click on the overlay in the open state takes the same closing-then-idle path.
\<close>

theorem focus_lifecycle:
  assumes r: "reachable s" and idle: "focusPhase s = Idle" and nd: "\<not> didDragRef s"
  shows "\<exists>s1 s2 s3 s4 s5 s6.
       step (Click a rect) s = Inr s1
     \<and> focusPhase s1 = Opening \<and> focusedId s1 = Some (fid a)
     \<and> focusOrigin s1 = Some \<lparr>posX = rectLeft rect, posY = rectTop rect\<rparr>
     \<and> step AnimationFrame s1 = Inr s2
     \<and> focusPhase s2 = Open \<and> focusedId s2 = Some (fid a) \<and> focusOrigin s2 = focusOrigin s1
     \<and> step (Click a rect') s2 = Inr s3
     \<and> focusPhase s3 = Closing \<and> focusedId s3 = Some (fid a)
     \<and> (timeouts s = [] \<longrightarrow>
          (\<forall>t < 450. \<exists>s'. step (Elapse t) s3 = Inr s' \<and> focusPhase s' = Closing
                          \<and> focusedId s' = Some (fid a)))
     \<and> step (Elapse 450) s3 = Inr s4
     \<and> focusPhase s4 = Idle \<and> focusedId s4 = None \<and> focusOrigin s4 = None
     \<and> step OverlayClick s2 = Inr s5
     \<and> focusPhase s5 = Closing \<and> focusedId s5 = Some (fid a)
     \<and> step (Elapse 450) s5 = Inr s6
     \<and> focusPhase s6 = Idle \<and> focusedId s6 = None \<and> focusOrigin s6 = None"
proof -
  from reachable_focusInv[OF r] idle have none: "focusedId s = None"
    by (simp add: focusInv_def)
  let ?s1 = "handleClick (fid a) rect s"
  let ?s2 = "animationFrame ?s1"
  let ?s3 = "handleClick (fid a) rect' ?s2"
  let ?s5 = "closeFocus ?s2"
  have f1: "focusPhase ?s1 = Opening" "focusedId ?s1 = Some (fid a)"
    "focusOrigin ?s1 = Some \<lparr>posX = rectLeft rect, posY = rectTop rect\<rparr>"
    "frameRequests ?s1 = frameRequests s + 1" "\<not> didDragRef ?s1" "timeouts ?s1 = timeouts s"
    "clock ?s1 = clock s"
    using none nd by (simp_all add: handleClick_def)
  have f2: "focusPhase ?s2 = Open" "focusedId ?s2 = Some (fid a)" "focusOrigin ?s2 = focusOrigin ?s1"
    "\<not> didDragRef ?s2" "timeouts ?s2 = timeouts s" "clock ?s2 = clock s"
    using f1 by (simp_all add: animationFrame_def funpow_openCallback openCallback_def)
  have f3: "focusPhase ?s3 = Closing" "focusedId ?s3 = Some (fid a)"
    "timeouts ?s3 = timeouts s @ [clock s + 450]" "clock ?s3 = clock s"
    using f2 by (simp_all add: handleClick_def)
  have f5: "focusPhase ?s5 = Closing" "focusedId ?s5 = Some (fid a)"
    "timeouts ?s5 = timeouts s @ [clock s + 450]" "clock ?s5 = clock s"
    using f2 by (simp_all add: closeFocus_def)
  have early: "timeouts s = [] \<longrightarrow>
      (\<forall>t < 450. \<exists>s'. step (Elapse t) ?s3 = Inr s' \<and> focusPhase s' = Closing
                      \<and> focusedId s' = Some (fid a))"
  proof (intro impI allI)
    fix t :: nat assume "timeouts s = []" "t < 450"
    then have "\<forall>d \<in> set (timeouts ?s3). clock ?s3 + t < d" by (simp add: f3)
    from elapse_not_due[OF this] show "\<exists>s'. step (Elapse t) ?s3 = Inr s' \<and> focusPhase s' = Closing
                      \<and> focusedId s' = Some (fid a)"
      by (simp add: f3)
  qed
  have "\<exists>d \<in> set (timeouts ?s3). d \<le> clock ?s3 + 450" by (simp add: f3)
  from elapse_due[OF this] have f4: "focusPhase (elapse 450 ?s3) = Idle"
    "focusedId (elapse 450 ?s3) = None" "focusOrigin (elapse 450 ?s3) = None"
    by simp_all
  have "\<exists>d \<in> set (timeouts ?s5). d \<le> clock ?s5 + 450" by (simp add: f5)
  from elapse_due[OF this] have f6: "focusPhase (elapse 450 ?s5) = Idle"
    "focusedId (elapse 450 ?s5) = None" "focusOrigin (elapse 450 ?s5) = None"
    by simp_all
  have steps: "step (Click a rect) s = Inr ?s1" "step AnimationFrame ?s1 = Inr ?s2"
    "step (Click a rect') ?s2 = Inr ?s3" "step (Elapse 450) ?s3 = Inr (elapse 450 ?s3)"
    "step OverlayClick ?s2 = Inr ?s5" "step (Elapse 450) ?s5 = Inr (elapse 450 ?s5)"
    by simp_all
  show ?thesis
    using steps f1(1-3) f2(1-3) f3(1,2) early f4 f5(1,2) f6 by blast
qed

lemma reachable_firstVisit: "reachable firstVisit"
  unfolding firstVisit_def by (rule reachable.mounted_hydrating)

theorem focus_lifecycle_witness:
  "reachable firstVisit \<and> focusPhase firstVisit = Idle \<and> \<not> didDragRef firstVisit
   \<and> timeouts firstVisit = []
   \<and> (\<exists>s1 s2 s3 s4 s5.
         step (Click (fragments ! 2) \<lparr>rectLeft = 64, rectTop = 144\<rparr>) firstVisit = Inr s1
       \<and> focusPhase s1 = Opening \<and> focusedId s1 = Some 19
       \<and> focusOrigin s1 = Some \<lparr>posX = 64, posY = 144\<rparr>
       \<and> step AnimationFrame s1 = Inr s2 \<and> focusPhase s2 = Open
       \<and> step (Click (fragments ! 2) \<lparr>rectLeft = 500, rectTop = 300\<rparr>) s2 = Inr s3
       \<and> focusPhase s3 = Closing
       \<and> step (Elapse 449) s3 = Inr s4 \<and> focusPhase s4 = Closing
       \<and> step (Elapse 450) s3 = Inr s5
       \<and> focusPhase s5 = Idle \<and> focusedId s5 = None \<and> focusOrigin s5 = None)"
proof -
  have h: "focusPhase firstVisit = Idle" "\<not> didDragRef firstVisit" "timeouts firstVisit = []"
    by (simp_all add: firstVisit_fields)
  from focus_lifecycle[OF reachable_firstVisit h(1) h(2), of "fragments ! 2"
      "\<lparr>rectLeft = 64, rectTop = 144\<rparr>" "\<lparr>rectLeft = 500, rectTop = 300\<rparr>"]
  obtain s1 s2 s3 s5 where
    a: "step (Click (fragments ! 2) \<lparr>rectLeft = 64, rectTop = 144\<rparr>) firstVisit = Inr s1"
      "focusPhase s1 = Opening" "focusedId s1 = Some (fid (fragments ! 2))"
      "focusOrigin s1 = Some \<lparr>posX = rectLeft \<lparr>rectLeft = 64, rectTop = 144\<rparr>,
                               posY = rectTop \<lparr>rectLeft = 64, rectTop = 144\<rparr>\<rparr>"
      "step AnimationFrame s1 = Inr s2" "focusPhase s2 = Open"
      "step (Click (fragments ! 2) \<lparr>rectLeft = 500, rectTop = 300\<rparr>) s2 = Inr s3"
      "focusPhase s3 = Closing"
    and early: "timeouts firstVisit = [] \<longrightarrow>
          (\<forall>t < 450. \<exists>s'. step (Elapse t) s3 = Inr s' \<and> focusPhase s' = Closing
                          \<and> focusedId s' = Some (fid (fragments ! 2)))"
    and b: "step (Elapse 450) s3 = Inr s5" "focusPhase s5 = Idle" "focusedId s5 = None"
      "focusOrigin s5 = None"
    by blast
  have "(449::nat) < 450" by simp
  with early h(3) have "\<exists>s'. step (Elapse 449) s3 = Inr s' \<and> focusPhase s' = Closing"
    by blast
  then obtain s4 where c: "step (Elapse 449) s3 = Inr s4" "focusPhase s4 = Closing" by blast
  from a(3,4) have "focusedId s1 = Some 19" "focusOrigin s1 = Some \<lparr>posX = 64, posY = 144\<rparr>"
    by (simp_all add: fid_fragments)
  with a b c reachable_firstVisit h show ?thesis by blast
qed

text \<open>
  Claim C10. A click, with the did-drag flag false, on a card \<open>b\<close> other than the focused
  card focuses \<open>b\<close> at once: the focused id is \<open>b\<close>, the origin is \<open>b\<close>'s rectangle and
  the phase is opening, whatever the phase was. No pending timer is cancelled, and when
  any of them comes due it clears the focused id and the origin and sets the phase to idle.
\<close>

theorem click_other_card_switches_focus:
  assumes "focusedId s = Some a" and "fid b \<noteq> a" and "\<not> didDragRef s"
  shows "\<exists>s1. step (Click b rect) s = Inr s1
     \<and> focusedId s1 = Some (fid b)
     \<and> focusOrigin s1 = Some \<lparr>posX = rectLeft rect, posY = rectTop rect\<rparr>
     \<and> focusPhase s1 = Opening
     \<and> timeouts s1 = timeouts s \<and> clock s1 = clock s
     \<and> (\<forall>d \<in> set (timeouts s). \<exists>s2. step (Elapse (d - clock s)) s1 = Inr s2
            \<and> focusedId s2 = None \<and> focusOrigin s2 = None \<and> focusPhase s2 = Idle)"
proof -
  let ?s1 = "handleClick (fid b) rect s"
  have f: "focusedId ?s1 = Some (fid b)"
    "focusOrigin ?s1 = Some \<lparr>posX = rectLeft rect, posY = rectTop rect\<rparr>"
    "focusPhase ?s1 = Opening" "timeouts ?s1 = timeouts s" "clock ?s1 = clock s"
    using assms by (auto simp: handleClick_def)
  have "\<forall>d \<in> set (timeouts s). \<exists>s2. step (Elapse (d - clock s)) ?s1 = Inr s2
            \<and> focusedId s2 = None \<and> focusOrigin s2 = None \<and> focusPhase s2 = Idle"
  proof
    fix d assume d: "d \<in> set (timeouts s)"
    have "d \<le> clock ?s1 + (d - clock s)" by (simp add: f)
    with d have "\<exists>d' \<in> set (timeouts ?s1). d' \<le> clock ?s1 + (d - clock s)"
      unfolding f(4) by blast
    from elapse_due[OF this]
    show "\<exists>s2. step (Elapse (d - clock s)) ?s1 = Inr s2
            \<and> focusedId s2 = None \<and> focusOrigin s2 = None \<and> focusPhase s2 = Idle"
      by simp
  qed
  with f show ?thesis by simp
qed

lemma closingCard19_fields:
  "focusedId closingCard19 = Some 19" "focusPhase closingCard19 = Closing"
  "\<not> didDragRef closingCard19" "timeouts closingCard19 = [450]" "clock closingCard19 = 0"
  by (simp_all add: closingCard19_def handleClick_def animationFrame_def funpow_openCallback
      openCallback_def firstVisit_fields)

theorem click_other_card_switches_focus_witness:
  "focusedId closingCard19 = Some 19 \<and> fid (fragments ! 0) \<noteq> 19 \<and> \<not> didDragRef closingCard19
   \<and> 450 \<in> set (timeouts closingCard19)
   \<and> (\<exists>s1 s2. step (Click (fragments ! 0) \<lparr>rectLeft = 64, rectTop = 18\<rparr>) closingCard19 = Inr s1
         \<and> focusedId s1 = Some 11 \<and> focusOrigin s1 = Some \<lparr>posX = 64, posY = 18\<rparr>
         \<and> focusPhase s1 = Opening
         \<and> step (Elapse 450) s1 = Inr s2
         \<and> focusedId s2 = None \<and> focusOrigin s2 = None \<and> focusPhase s2 = Idle)"
proof -
  have h: "focusedId closingCard19 = Some 19" "fid (fragments ! 0) \<noteq> 19"
    "\<not> didDragRef closingCard19" "450 \<in> set (timeouts closingCard19)"
    by (simp_all add: closingCard19_fields fid_fragments)
  from click_other_card_switches_focus[OF h(1) h(2) h(3), of "\<lparr>rectLeft = 64, rectTop = 18\<rparr>"]
  obtain s1 where
    a: "step (Click (fragments ! 0) \<lparr>rectLeft = 64, rectTop = 18\<rparr>) closingCard19 = Inr s1"
      "focusedId s1 = Some (fid (fragments ! 0))"
      "focusOrigin s1 = Some \<lparr>posX = rectLeft \<lparr>rectLeft = 64, rectTop = 18\<rparr>,
                               posY = rectTop \<lparr>rectLeft = 64, rectTop = 18\<rparr>\<rparr>"
      "focusPhase s1 = Opening"
    and t: "\<forall>d \<in> set (timeouts closingCard19).
        \<exists>s2. step (Elapse (d - clock closingCard19)) s1 = Inr s2
            \<and> focusedId s2 = None \<and> focusOrigin s2 = None \<and> focusPhase s2 = Idle"
    by blast
  from t h(4) have "\<exists>s2. step (Elapse (450 - clock closingCard19)) s1 = Inr s2
            \<and> focusedId s2 = None \<and> focusOrigin s2 = None \<and> focusPhase s2 = Idle"
    by blast
  then obtain s2 where b: "step (Elapse 450) s1 = Inr s2" "focusedId s2 = None"
    "focusOrigin s2 = None" "focusPhase s2 = Idle"
    by (simp only: closingCard19_fields diff_zero) blast
  from a(2,3) have "focusedId s1 = Some 11" "focusOrigin s1 = Some \<lparr>posX = 64, posY = 18\<rparr>"
    by (simp_all add: fid_fragments)
  with a b h show ?thesis by blast
qed

subsection \<open>Style resolver\<close>

lemma layoutStore_storageWith:
  "wellFormed d \<Longrightarrow> finiteNumbers d \<Longrightarrow>
   layoutStore True (storageWith d) =
     \<lparr>listeners = [], data = Some d, isLoaded = True,
      snapshot = \<lparr>snapData = Some d, snapIsLoaded = True\<rparr>,
      localStorage = storageWith d, notified = []\<rparr>"
proof -
  assume "wellFormed d" and "finiteNumbers d"
  then have "loadData (storageWith d) = Inr (Some d)"
    by (intro loadData_stored) (simp_all add: storageWith_def emptyStorage_def)
  then show ?thesis by (simp add: layoutStore_def Let_def)
qed

lemma hydrated_fields:
  assumes "wellFormed d" and "finiteNumbers d"
  shows "layout (mount serverSnapshot (layoutStore True (storageWith d))) = Some d"
    "maxZRef (mount serverSnapshot (layoutStore True (storageWith d))) = 20"
    "localStorage (store (mount serverSnapshot (layoutStore True (storageWith d)))) = storageWith d"
    "focusedId (mount serverSnapshot (layoutStore True (storageWith d))) = None"
    "focusOrigin (mount serverSnapshot (layoutStore True (storageWith d))) = None"
    "focusPhase (mount serverSnapshot (layoutStore True (storageWith d))) = Idle"
    "draggingId (mount serverSnapshot (layoutStore True (storageWith d))) = None"
    "dragPos (mount serverSnapshot (layoutStore True (storageWith d))) = None"
    "didDragRef (mount serverSnapshot (layoutStore True (storageWith d))) = False"
    "frameRequests (mount serverSnapshot (layoutStore True (storageWith d))) = 0"
  by (simp_all add: layoutStore_storageWith[OF assms] mount_def subscribe_def layout_def
      getSnapshot_def serverSnapshot_def)

lemma fz_fragments: "item \<in> set fragments \<Longrightarrow> fz item \<le> 10"
  by (auto simp: fragments_def)

lemma currentZ_below:
  assumes "\<forall>v \<in> set (map snd (zIndexesOf s)). v < b" and "item \<in> set fragments" and "10 < b"
  shows "currentZ s item < b"
proof (cases "map_of (zIndexesOf s) (fid item)")
  case None
  with fz_fragments[OF assms(2)] assms(3) show ?thesis by (simp add: currentZ_def)
next
  case (Some v)
  then have "(fid item, v) \<in> set (zIndexesOf s)" by (rule map_of_SomeD)
  then have "v \<in> set (map snd (zIndexesOf s))" by force
  with assms(1) have "v < b" by blast
  with Some fz_fragments[OF assms(2)] assms(3) show ?thesis by (simp add: currentZ_def)
qed

lemma resting_style_z:
  "focusedId s \<noteq> Some (fid item) \<Longrightarrow> draggingId s \<noteq> Some (fid item)
   \<Longrightarrow> cssZIndex (renderStyle s item) = currentZ s item"
  by (simp add: renderStyle_def getStyle_def Let_def split: option.splits)

lemma dragging_style:
  "draggingId s = Some (fid item) \<Longrightarrow> focusedId s \<noteq> Some (fid item) \<Longrightarrow> dragPos s = Some p
   \<Longrightarrow> renderStyle s item =
     \<lparr>cssPosition = Some ''fixed'', cssTop = Some (Px (posY p)), cssLeft = Some (Px (posX p)),
      cssRight = Some (Str ''auto''),
      cssTransform = [Rotate (frotate item * 0.3), Scale 1.02],
      cssZIndex = 999, cssWidth = fwidth item,
      cssTransition = None, cssCursor = Some ''grabbing''\<rparr>"
  by (simp add: renderStyle_def getStyle_def Let_def)

lemma focused_style_z:
  "focusedId s = Some (fid item) \<Longrightarrow> focusOrigin s \<noteq> None
   \<Longrightarrow> cssZIndex (renderStyle s item) = 1001"
  by (simp add: renderStyle_def getStyle_def Let_def)

text \<open>
  Claim C7, as amended. In every reachable state, a card that is focused with phase open
  is styled fixed at top 50%, left 50% with the translate by (-50%, -50%) and rotation 0;
  a card that is not a media card keeps its width and is scaled by 1.5, a media card has
  no scale function and the width 480px; the transition on top, left, transform and width
  is set; the z-index is 1001, which is above the 999 of a dragged card, and above every
  other card provided every entry of the z-index mapping is below 1001.
\<close>

theorem focused_open_style:
  assumes r: "reachable s" and f: "focusedId s = Some (fid item)" and o: "focusPhase s = Open"
  shows "renderStyle s item =
     \<lparr>cssPosition = Some ''fixed'', cssTop = Some (Str ''50%''), cssLeft = Some (Str ''50%''),
      cssRight = Some (Str ''auto''),
      cssTransform = (if ftype item = ''media'' then [Translate ''-50%'' ''-50%'', Rotate 0]
                      else [Translate ''-50%'' ''-50%'', Rotate 0, Scale 1.5]),
      cssZIndex = 1001,
      cssWidth = (if ftype item = ''media'' then ''480px'' else fwidth item),
      cssTransition = Some transition, cssCursor = None\<rparr>
   \<and> (\<forall>other p. draggingId s = Some (fid other) \<and> focusedId s \<noteq> Some (fid other)
          \<and> dragPos s = Some p
          \<longrightarrow> cssZIndex (renderStyle s other) < cssZIndex (renderStyle s item))
   \<and> ((\<forall>v \<in> set (map snd (zIndexesOf s)). v < 1001)
        \<longrightarrow> (\<forall>other \<in> set fragments. focusedId s \<noteq> Some (fid other)
              \<longrightarrow> cssZIndex (renderStyle s other) < cssZIndex (renderStyle s item)))"
proof -
  from reachable_focusInv[OF r] f have origin: "focusOrigin s \<noteq> None"
    by (auto simp: focusInv_def)
  have style: "renderStyle s item =
     \<lparr>cssPosition = Some ''fixed'', cssTop = Some (Str ''50%''), cssLeft = Some (Str ''50%''),
      cssRight = Some (Str ''auto''),
      cssTransform = (if ftype item = ''media'' then [Translate ''-50%'' ''-50%'', Rotate 0]
                      else [Translate ''-50%'' ''-50%'', Rotate 0, Scale 1.5]),
      cssZIndex = 1001,
      cssWidth = (if ftype item = ''media'' then ''480px'' else fwidth item),
      cssTransition = Some transition, cssCursor = None\<rparr>"
    using f o origin by (simp add: renderStyle_def getStyle_def Let_def)
  have z: "cssZIndex (renderStyle s item) = 1001"
    using f origin by (rule focused_style_z)
  have drag: "\<forall>other p. draggingId s = Some (fid other) \<and> focusedId s \<noteq> Some (fid other)
          \<and> dragPos s = Some p
          \<longrightarrow> cssZIndex (renderStyle s other) < cssZIndex (renderStyle s item)"
    unfolding z by (auto simp: dragging_style)
  have rest: "(\<forall>v \<in> set (map snd (zIndexesOf s)). v < 1001)
        \<longrightarrow> (\<forall>other \<in> set fragments. focusedId s \<noteq> Some (fid other)
              \<longrightarrow> cssZIndex (renderStyle s other) < cssZIndex (renderStyle s item))"
  proof (intro impI ballI)
    fix other
    assume b: "\<forall>v \<in> set (map snd (zIndexesOf s)). v < 1001"
      and m: "other \<in> set fragments" and nf: "focusedId s \<noteq> Some (fid other)"
    show "cssZIndex (renderStyle s other) < cssZIndex (renderStyle s item)"
    proof (cases "draggingId s = Some (fid other) \<and> dragPos s \<noteq> None")
      case True
      then obtain p where "dragPos s = Some p" by blast
      with True nf show ?thesis unfolding z by (simp add: dragging_style)
    next
      case False
      with nf have "cssZIndex (renderStyle s other) = currentZ s other"
        by (auto simp: renderStyle_def getStyle_def Let_def split: option.splits)
      with currentZ_below[OF b m] show ?thesis unfolding z by simp
    qed
  qed
  from style drag rest show ?thesis by blast
qed

lemma reachable_run:
  "reachable s \<Longrightarrow> list_all onCard evs \<Longrightarrow> run evs s = Inr s' \<Longrightarrow> reachable s'"
proof (induction evs arbitrary: s)
  case Nil
  then show ?case by simp
next
  case (Cons ev evs)
  from step_total[of ev s] obtain s1 where s1: "step ev s = Inr s1" by blast
  with Cons.prems have "reachable s1" by (auto intro: reachable.after_event)
  with Cons s1 show ?case by simp
qed

lemma in_fragments:
  "fragments ! 0 \<in> set fragments" "fragments ! 2 \<in> set fragments"
  "fragments ! 3 \<in> set fragments" "fragments ! 4 \<in> set fragments"
  by (simp_all add: fragments_def)

lemma run_focus13Drag11:
  "run [Click (fragments ! 3) \<lparr>rectLeft = 900, rectTop = 160\<rparr>, AnimationFrame,
        PointerDown (fragments ! 0) (MouseEvent 70 20) \<lparr>rectLeft = 64, rectTop = 18\<rparr>] firstVisit
   = Inr focus13Drag11"
  by (simp add: focus13Drag11_def fid_fragments handlePointerDown_eq handleClick_def
      animationFrame_def funpow_openCallback openCallback_def firstVisit_fields
      positionsOf_def zIndexesOf_def layout_def firstVisit_fields(1)[unfolded layout_def])

lemma reachable_focus13Drag11: "reachable focus13Drag11"
  by (rule reachable_run[OF reachable_firstVisit _ run_focus13Drag11]) (simp add: in_fragments)

lemma focus13Drag11_fields:
  "focusedId focus13Drag11 = Some 13" "focusPhase focus13Drag11 = Open"
  "focusOrigin focus13Drag11 = Some \<lparr>posX = 900, posY = 160\<rparr>"
  "draggingId focus13Drag11 = Some 11" "dragPos focus13Drag11 = Some \<lparr>posX = 64, posY = 18\<rparr>"
  "zIndexesOf focus13Drag11 = [(11, 21)]" "positionsOf focus13Drag11 = []"
  using fits_grab11
  by (simp_all add: focus13Drag11_def grabbed_def animationFrame_def funpow_openCallback
      openCallback_def handleClick_def firstVisit_fields of_layout layout_persisted)

theorem focused_open_style_witness:
  "reachable focus13Drag11 \<and> focusedId focus13Drag11 = Some (fid (fragments ! 3))
   \<and> focusPhase focus13Drag11 = Open
   \<and> draggingId focus13Drag11 = Some (fid (fragments ! 0))
   \<and> focusedId focus13Drag11 \<noteq> Some (fid (fragments ! 0))
   \<and> dragPos focus13Drag11 = Some \<lparr>posX = 64, posY = 18\<rparr>
   \<and> fragments ! 2 \<in> set fragments \<and> focusedId focus13Drag11 \<noteq> Some (fid (fragments ! 2))
   \<and> renderStyle focus13Drag11 (fragments ! 3) =
       \<lparr>cssPosition = Some ''fixed'', cssTop = Some (Str ''50%''), cssLeft = Some (Str ''50%''),
        cssRight = Some (Str ''auto''),
        cssTransform = [Translate ''-50%'' ''-50%'', Rotate 0],
        cssZIndex = 1001, cssWidth = ''480px'',
        cssTransition = Some transition, cssCursor = None\<rparr>
   \<and> cssZIndex (renderStyle focus13Drag11 (fragments ! 0))
       < cssZIndex (renderStyle focus13Drag11 (fragments ! 3))
   \<and> cssZIndex (renderStyle focus13Drag11 (fragments ! 2))
       < cssZIndex (renderStyle focus13Drag11 (fragments ! 3))"
proof -
  have h: "focusedId focus13Drag11 = Some (fid (fragments ! 3))" "focusPhase focus13Drag11 = Open"
    "draggingId focus13Drag11 = Some (fid (fragments ! 0))"
    "focusedId focus13Drag11 \<noteq> Some (fid (fragments ! 0))"
    "dragPos focus13Drag11 = Some \<lparr>posX = 64, posY = 18\<rparr>"
    "focusedId focus13Drag11 \<noteq> Some (fid (fragments ! 2))"
    "\<forall>v \<in> set (map snd (zIndexesOf focus13Drag11)). v < 1001"
    by (simp_all add: focus13Drag11_fields fid_fragments)
  have media: "ftype (fragments ! 3) = ''media''" by (simp add: fragments_def)
  note t = focused_open_style[OF reachable_focus13Drag11 h(1) h(2)]
  from t media have "renderStyle focus13Drag11 (fragments ! 3) =
       \<lparr>cssPosition = Some ''fixed'', cssTop = Some (Str ''50%''), cssLeft = Some (Str ''50%''),
        cssRight = Some (Str ''auto''),
        cssTransform = [Translate ''-50%'' ''-50%'', Rotate 0],
        cssZIndex = 1001, cssWidth = ''480px'',
        cssTransition = Some transition, cssCursor = None\<rparr>"
    by simp
  moreover from t h(3,4,5) have "cssZIndex (renderStyle focus13Drag11 (fragments ! 0))
       < cssZIndex (renderStyle focus13Drag11 (fragments ! 3))"
    by blast
  moreover from t h(6,7) in_fragments(2) have "cssZIndex (renderStyle focus13Drag11 (fragments ! 2))
       < cssZIndex (renderStyle focus13Drag11 (fragments ! 3))"
    by blast
  ultimately show ?thesis
    using reachable_focus13Drag11 h in_fragments(2) by blast
qed

lemma wellFormed_crowded: "wellFormed crowdedLayout"
  by (simp add: wellFormed_def keysAscending_def crowdedLayout_def)

lemma finiteNumbers_crowded: "finiteNumbers crowdedLayout"
  by (simp add: finiteNumbers_def crowdedLayout_def)

lemmas crowdedVisit_fields =
  hydrated_fields[OF wellFormed_crowded finiteNumbers_crowded, folded crowdedVisit_def]

text \<open>
  The claim as stated fails: the z-index counter has no upper bound, and the layout that
  a session loads can hold any value. With a stored z-index of 1500 for card 11, card 19
  focused in phase open is at 1001, below card 11.
\<close>

theorem focus_layer_below_resting_card:
  "observe focusedId
     (run [Click (fragments ! 2) \<lparr>rectLeft = 64, rectTop = 144\<rparr>, AnimationFrame] crowdedVisit)
     = Some (Some 19)
   \<and> observe focusPhase
     (run [Click (fragments ! 2) \<lparr>rectLeft = 64, rectTop = 144\<rparr>, AnimationFrame] crowdedVisit)
     = Some Open
   \<and> observe (styleZ (fragments ! 2))
     (run [Click (fragments ! 2) \<lparr>rectLeft = 64, rectTop = 144\<rparr>, AnimationFrame] crowdedVisit)
     = Some 1001
   \<and> observe (styleZ (fragments ! 0))
     (run [Click (fragments ! 2) \<lparr>rectLeft = 64, rectTop = 144\<rparr>, AnimationFrame] crowdedVisit)
     = Some 1500"
proof -
  let ?s = "animationFrame (handleClick 19 \<lparr>rectLeft = 64, rectTop = 144\<rparr> crowdedVisit)"
  have run: "run [Click (fragments ! 2) \<lparr>rectLeft = 64, rectTop = 144\<rparr>, AnimationFrame] crowdedVisit
      = Inr ?s"
    by (simp add: fid_fragments)
  have f: "focusedId ?s = Some 19" "focusPhase ?s = Open" "focusOrigin ?s \<noteq> None"
    "draggingId ?s = None" "zIndexesOf ?s = [(11, 1500)]"
    by (simp_all add: animationFrame_def funpow_openCallback openCallback_def handleClick_def
        crowdedVisit_fields of_layout layout_def crowdedLayout_def
        crowdedVisit_fields(1)[unfolded layout_def])
  have "styleZ (fragments ! 2) ?s = 1001"
    unfolding styleZ_def using f by (intro focused_style_z) (simp_all add: fid_fragments)
  moreover have "styleZ (fragments ! 0) ?s = 1500"
    unfolding styleZ_def using f by (simp add: resting_style_z fid_fragments currentZ_def)
  ultimately show ?thesis unfolding run using f by simp
qed

text \<open>
  Claim C8, as amended. A card that is being dragged, is not focused and has a live drag
  position is styled fixed at the live drag coordinates, with rotation 0.3 times its
  resting rotation, scale 1.02, no transition, and z-index 999, which is below the 1001
  of a focused card, and above every card that is neither focused nor dragged provided
  every entry of the z-index mapping is below 999.
\<close>

theorem dragging_style_layer:
  assumes d: "draggingId s = Some (fid item)" and nf: "focusedId s \<noteq> Some (fid item)"
    and p: "dragPos s = Some p"
  shows "renderStyle s item =
     \<lparr>cssPosition = Some ''fixed'', cssTop = Some (Px (posY p)), cssLeft = Some (Px (posX p)),
      cssRight = Some (Str ''auto''),
      cssTransform = [Rotate (0.3 * frotate item), Scale 1.02],
      cssZIndex = 999, cssWidth = fwidth item,
      cssTransition = None, cssCursor = Some ''grabbing''\<rparr>
   \<and> (\<forall>other. focusedId s = Some (fid other) \<and> focusOrigin s \<noteq> None
          \<longrightarrow> cssZIndex (renderStyle s item) < cssZIndex (renderStyle s other))
   \<and> ((\<forall>v \<in> set (map snd (zIndexesOf s)). v < 999)
        \<longrightarrow> (\<forall>other \<in> set fragments.
               focusedId s \<noteq> Some (fid other) \<and> draggingId s \<noteq> Some (fid other)
               \<longrightarrow> cssZIndex (renderStyle s other) < cssZIndex (renderStyle s item)))"
proof -
  have style: "renderStyle s item =
     \<lparr>cssPosition = Some ''fixed'', cssTop = Some (Px (posY p)), cssLeft = Some (Px (posX p)),
      cssRight = Some (Str ''auto''),
      cssTransform = [Rotate (0.3 * frotate item), Scale 1.02],
      cssZIndex = 999, cssWidth = fwidth item,
      cssTransition = None, cssCursor = Some ''grabbing''\<rparr>"
    using dragging_style[OF d nf p] by (simp add: mult.commute)
  then have z: "cssZIndex (renderStyle s item) = 999" by simp
  have focus: "\<forall>other. focusedId s = Some (fid other) \<and> focusOrigin s \<noteq> None
          \<longrightarrow> cssZIndex (renderStyle s item) < cssZIndex (renderStyle s other)"
    unfolding z by (auto simp: focused_style_z)
  have rest: "(\<forall>v \<in> set (map snd (zIndexesOf s)). v < 999)
        \<longrightarrow> (\<forall>other \<in> set fragments.
               focusedId s \<noteq> Some (fid other) \<and> draggingId s \<noteq> Some (fid other)
               \<longrightarrow> cssZIndex (renderStyle s other) < cssZIndex (renderStyle s item))"
  proof (intro impI ballI)
    fix other
    assume b: "\<forall>v \<in> set (map snd (zIndexesOf s)). v < 999"
      and m: "other \<in> set fragments"
      and n: "focusedId s \<noteq> Some (fid other) \<and> draggingId s \<noteq> Some (fid other)"
    from n have "cssZIndex (renderStyle s other) = currentZ s other"
      by (simp add: resting_style_z)
    with currentZ_below[OF b m] show "cssZIndex (renderStyle s other) < cssZIndex (renderStyle s item)"
      unfolding z by simp
  qed
  from style focus rest show ?thesis by blast
qed

theorem dragging_style_layer_witness:
  "draggingId focus13Drag11 = Some (fid (fragments ! 0))
   \<and> focusedId focus13Drag11 \<noteq> Some (fid (fragments ! 0))
   \<and> dragPos focus13Drag11 = Some \<lparr>posX = 64, posY = 18\<rparr>
   \<and> focusedId focus13Drag11 = Some (fid (fragments ! 3)) \<and> focusOrigin focus13Drag11 \<noteq> None
   \<and> fragments ! 4 \<in> set fragments
   \<and> focusedId focus13Drag11 \<noteq> Some (fid (fragments ! 4))
   \<and> draggingId focus13Drag11 \<noteq> Some (fid (fragments ! 4))
   \<and> renderStyle focus13Drag11 (fragments ! 0) =
       \<lparr>cssPosition = Some ''fixed'', cssTop = Some (Px 18), cssLeft = Some (Px 64),
        cssRight = Some (Str ''auto''),
        cssTransform = [Rotate 0.75, Scale 1.02],
        cssZIndex = 999, cssWidth = ''240px'',
        cssTransition = None, cssCursor = Some ''grabbing''\<rparr>
   \<and> cssZIndex (renderStyle focus13Drag11 (fragments ! 0))
       < cssZIndex (renderStyle focus13Drag11 (fragments ! 3))
   \<and> cssZIndex (renderStyle focus13Drag11 (fragments ! 4))
       < cssZIndex (renderStyle focus13Drag11 (fragments ! 0))"
proof -
  have h: "draggingId focus13Drag11 = Some (fid (fragments ! 0))"
    "focusedId focus13Drag11 \<noteq> Some (fid (fragments ! 0))"
    "dragPos focus13Drag11 = Some \<lparr>posX = 64, posY = 18\<rparr>"
    "focusedId focus13Drag11 = Some (fid (fragments ! 3)) \<and> focusOrigin focus13Drag11 \<noteq> None"
    "focusedId focus13Drag11 \<noteq> Some (fid (fragments ! 4))
       \<and> draggingId focus13Drag11 \<noteq> Some (fid (fragments ! 4))"
    "\<forall>v \<in> set (map snd (zIndexesOf focus13Drag11)). v < 999"
    by (simp_all add: focus13Drag11_fields fid_fragments)
  have card: "frotate (fragments ! 0) = 2.5" "fwidth (fragments ! 0) = ''240px''"
    by (simp_all add: fragments_def)
  note t = dragging_style_layer[OF h(1) h(2) h(3)]
  from t card have "renderStyle focus13Drag11 (fragments ! 0) =
       \<lparr>cssPosition = Some ''fixed'', cssTop = Some (Px 18), cssLeft = Some (Px 64),
        cssRight = Some (Str ''auto''),
        cssTransform = [Rotate 0.75, Scale 1.02],
        cssZIndex = 999, cssWidth = ''240px'',
        cssTransition = None, cssCursor = Some ''grabbing''\<rparr>"
    by simp
  moreover from t h(4) have "cssZIndex (renderStyle focus13Drag11 (fragments ! 0))
       < cssZIndex (renderStyle focus13Drag11 (fragments ! 3))"
    by blast
  moreover from t h(5,6) in_fragments(4) have "cssZIndex (renderStyle focus13Drag11 (fragments ! 4))
       < cssZIndex (renderStyle focus13Drag11 (fragments ! 0))"
    by blast
  ultimately show ?thesis using h in_fragments(4) by blast
qed

text \<open>
  The claim as stated fails in the same way: with a stored z-index of 1500 for card 11,
  card 19 while dragged is at 999, below the resting card 11.
\<close>

theorem drag_layer_below_resting_card:
  "observe draggingId
     (step (PointerDown (fragments ! 2) (MouseEvent 70 150) \<lparr>rectLeft = 64, rectTop = 144\<rparr>)
        crowdedVisit)
     = Some (Some 19)
   \<and> observe (styleZ (fragments ! 2))
     (step (PointerDown (fragments ! 2) (MouseEvent 70 150) \<lparr>rectLeft = 64, rectTop = 144\<rparr>)
        crowdedVisit)
     = Some 999
   \<and> observe (styleZ (fragments ! 0))
     (step (PointerDown (fragments ! 2) (MouseEvent 70 150) \<lparr>rectLeft = 64, rectTop = 144\<rparr>)
        crowdedVisit)
     = Some 1500"
proof -
  let ?d = "\<lparr>positions = [], zIndexes = [(11, 1500), (19, 21)], maxZ = 21\<rparr>"
  let ?s = "persisted ?d (grabbed 19 (MouseEvent 70 150) \<lparr>rectLeft = 64, rectTop = 144\<rparr> crowdedVisit)"
  have st: "step (PointerDown (fragments ! 2) (MouseEvent 70 150) \<lparr>rectLeft = 64, rectTop = 144\<rparr>)
        crowdedVisit = Inr ?s"
    by (simp add: handlePointerDown_eq fid_fragments crowdedVisit_fields of_layout
        crowdedLayout_def)
  have f: "draggingId ?s = Some 19" "focusedId ?s = None"
    "dragPos ?s = Some \<lparr>posX = 64, posY = 144\<rparr>"
    by (simp_all add: grabbed_def crowdedVisit_fields)
  have z: "map_of (zIndexesOf ?s) 11 = Some 1500"
    by (simp add: of_layout layout_persisted crowdedVisit_fields crowdedLayout_def)
  have "styleZ (fragments ! 2) ?s = 999"
    unfolding styleZ_def using dragging_style[of ?s "fragments ! 2", OF _ _ f(3)] f
    by (simp add: fid_fragments)
  moreover have "styleZ (fragments ! 0) ?s = 1500"
    unfolding styleZ_def using f z by (simp add: resting_style_z fid_fragments currentZ_def)
  ultimately show ?thesis unfolding st using f by simp
qed

subsection \<open>The layout invariant and the z-index counter\<close>

lemma wellFormed_example: "wellFormed exampleLayout"
  by (simp add: wellFormed_def keysAscending_def exampleLayout_def)

lemma finiteNumbers_example: "finiteNumbers exampleLayout"
  by (simp add: finiteNumbers_def exampleLayout_def)

lemmas returnVisit_fields =
  hydrated_fields[OF wellFormed_example finiteNumbers_example, folded returnVisit_def]

lemma reachable_returnVisit: "reachable returnVisit"
  unfolding returnVisit_def by (rule reachable.mounted_hydrating)

text \<open>
  Claim C6 fails on the code. The component's first render during hydration reads the
  server snapshot, so \<open>useRef(layout?.maxZ ?? 20)\<close> starts the counter at 20 whatever
  \<open>maxZ\<close> the stored layout has. On a return visit whose stored layout satisfies the
  invariant with \<open>maxZ = 24\<close>, a pointer-down on card 19 persists the z-index 21 for the
  card and \<open>maxZ = 21\<close>, below the stored z-index 24 of card 22.
\<close>

theorem stale_counter_breaks_layout_invariant:
  "layout returnVisit = Some exampleLayout
   \<and> layoutInv exampleLayout
   \<and> maxZRef returnVisit = 20
   \<and> observe layout
       (step (PointerDown (fragments ! 2) (MouseEvent 70 150) \<lparr>rectLeft = 64, rectTop = 144\<rparr>)
          returnVisit)
     = Some (Some \<lparr>positions = positions exampleLayout,
                    zIndexes = [(11, 22), (19, 21), (22, 24)], maxZ = 21\<rparr>)
   \<and> \<not> layoutInv \<lparr>positions = positions exampleLayout,
                     zIndexes = [(11, 22), (19, 21), (22, 24)], maxZ = 21\<rparr>"
proof -
  let ?d = "\<lparr>positions = positions exampleLayout,
             zIndexes = [(11, 22), (19, 21), (22, 24)], maxZ = 21\<rparr>"
  let ?s = "persisted ?d (grabbed 19 (MouseEvent 70 150) \<lparr>rectLeft = 64, rectTop = 144\<rparr> returnVisit)"
  have st: "step (PointerDown (fragments ! 2) (MouseEvent 70 150) \<lparr>rectLeft = 64, rectTop = 144\<rparr>)
        returnVisit = Inr ?s"
    by (simp add: handlePointerDown_eq fid_fragments returnVisit_fields of_layout
        exampleLayout_def)
  have "fits (JSON_stringify ?d) (storageWith exampleLayout)"
    by (simp add: fits_def storageWith_def emptyStorage_def JSON_stringify_def layoutToJson_def
        recordToJson_def positionToJson_def showNumber_numeral quoteKey_def digitsOf.simps
        exampleLayout_def)
  then have "layout ?s = Some ?d"
    by (simp add: layout_persisted returnVisit_fields)
  moreover have "layoutInv exampleLayout"
    by (simp add: layoutInv_def exampleLayout_def cardIds_def fragments_def)
  moreover have "\<not> layoutInv ?d"
    by (simp add: layoutInv_def)
  ultimately show ?thesis
    unfolding st by (simp add: returnVisit_fields)
qed

lemma fits_session:
  "fits (JSON_stringify \<lparr>positions = [], zIndexes = [(11, 21)], maxZ = 21\<rparr>) emptyStorage"
  "fits (JSON_stringify \<lparr>positions = [(11, \<lparr>posX = 100, posY = 50\<rparr>)], zIndexes = [(11, 22)], maxZ = 22\<rparr>) emptyStorage"
  "fits (JSON_stringify \<lparr>positions = [(11, \<lparr>posX = 100, posY = 50\<rparr>)], zIndexes = [(11, 22), (22, 23)],
              maxZ = 23\<rparr>) emptyStorage"
  by (simp_all add: fits_def emptyStorage_def JSON_stringify_def layoutToJson_def
        recordToJson_def positionToJson_def showNumber_numeral quoteKey_def digitsOf.simps)

lemma fields_grabbed:
  "draggingId (grabbed i e rect s) = Some i"
  "dragPos (grabbed i e rect s) = Some \<lparr>posX = rectLeft rect, posY = rectTop rect\<rparr>"
  "dragStartRef (grabbed i e rect s)
     = Some \<lparr>startX = clientX e, startY = clientY e, elemX = rectLeft rect, elemY = rectTop rect\<rparr>"
  "didDragRef (grabbed i e rect s) = False"
  "maxZRef (grabbed i e rect s) = maxZRef s"
  "focusedId (grabbed i e rect s) = focusedId s"
  "focusOrigin (grabbed i e rect s) = focusOrigin s"
  "focusPhase (grabbed i e rect s) = focusPhase s"
  by (simp_all add: grabbed_def)

lemma fields_endDrag:
  "draggingId (endDrag s) = None" "dragPos (endDrag s) = None" "dragStartRef (endDrag s) = None"
  "didDragRef (endDrag s) = didDragRef s"
  "maxZRef (endDrag s) = maxZRef s"
  "focusedId (endDrag s) = focusedId s"
  "focusOrigin (endDrag s) = focusOrigin s"
  "focusPhase (endDrag s) = focusPhase s"
  "store (endDrag s) = store s"
  by (simp_all add: endDrag_def)

lemma store_handleMove: "store (handleMove m s) = store s"
  by (cases "dragStartRef s") (simp_all add: handleMove_def Let_def)

lemma dragPos_handleMove:
  "dragStartRef s = Some d
   \<Longrightarrow> dragPos (handleMove m s)
       = Some \<lparr>posX = elemX d + (clientX m - startX d), posY = elemY d + (clientY m - startY d)\<rparr>"
  by (simp add: handleMove_def Let_def)

lemma step_PointerDown_grab:
  "focusedId s \<noteq> Some (fid item)
   \<Longrightarrow> step (PointerDown item e rect) s =
       Inr (persisted \<lparr>positions = positionsOf s,
                       zIndexes = objSet (fid item) (maxZRef s + 1) (zIndexesOf s),
                       maxZ = maxZRef s + 1\<rparr> (grabbed (fid item) e rect s))"
  by (simp add: handlePointerDown_eq)

lemma storage_kept:
  "fits v (localStorage (store (grabbed i e rect s))) = fits v (localStorage (store s))"
  "fits v (localStorage (store (endDrag s))) = fits v (localStorage (store s))"
  "fits v (localStorage (store (handleMove m s))) = fits v (localStorage (store s))"
  by (simp_all add: fields_endDrag store_handleMove)

text \<open>
  The stored layout of the return visit is what a first visit leaves behind: a press
  and release on card 11, then a drag of card 22 from (100, 100) to (250, 180).
\<close>

lemma first_session_leaves_example:
  "observe layout
     (run [PointerDown (fragments ! 0) (MouseEvent 130 70) \<lparr>rectLeft = 100, rectTop = 50\<rparr>,
           PointerEnd,
           PointerDown (fragments ! 4) (MouseEvent 120 110) \<lparr>rectLeft = 100, rectTop = 100\<rparr>,
           PointerMove (MouseEvent 270 190),
           PointerEnd] firstVisit)
   = Some (Some exampleLayout)
   \<and> observe storedText
     (run [PointerDown (fragments ! 0) (MouseEvent 130 70) \<lparr>rectLeft = 100, rectTop = 50\<rparr>,
           PointerEnd,
           PointerDown (fragments ! 4) (MouseEvent 120 110) \<lparr>rectLeft = 100, rectTop = 100\<rparr>,
           PointerMove (MouseEvent 270 190),
           PointerEnd] firstVisit)
   = Some (storedText returnVisit)"
proof -
  let ?d1 = "\<lparr>positions = [], zIndexes = [(11, 21)], maxZ = 21\<rparr>"
  let ?d2 = "\<lparr>positions = [(11, \<lparr>posX = 100, posY = 50\<rparr>)], zIndexes = [(11, 22)], maxZ = 22\<rparr>"
  let ?d3 = "\<lparr>positions = [(11, \<lparr>posX = 100, posY = 50\<rparr>)], zIndexes = [(11, 22), (22, 23)],
              maxZ = 23\<rparr>"
  define s1 where "s1 = persisted ?d1 (grabbed 11 (MouseEvent 130 70) \<lparr>rectLeft = 100, rectTop = 50\<rparr> firstVisit)"
  define s2 where "s2 = endDrag (persisted ?d2 s1)"
  define s3 where "s3 = persisted ?d3 (grabbed 22 (MouseEvent 120 110) \<lparr>rectLeft = 100, rectTop = 100\<rparr> s2)"
  define s4 where "s4 = handleMove (MouseEvent 270 190) s3"
  define s5 where "s5 = endDrag (persisted exampleLayout s4)"
  have st1: "fits v (localStorage (store s1)) = fits v emptyStorage" for v
    by (simp add: s1_def storage_kept firstVisit_fields)
  have st2: "fits v (localStorage (store s2)) = fits v emptyStorage" for v
    by (simp add: s2_def storage_kept st1)
  have st3: "fits v (localStorage (store s3)) = fits v emptyStorage" for v
    by (simp add: s3_def storage_kept st2)
  have st4: "fits v (localStorage (store s4)) = fits v emptyStorage" for v
    by (simp add: s4_def storage_kept st3)
  have e1: "step (PointerDown (fragments ! 0) (MouseEvent 130 70) \<lparr>rectLeft = 100, rectTop = 50\<rparr>)
              firstVisit = Inr s1"
    unfolding s1_def
    using step_PointerDown_grab[of firstVisit "fragments ! 0"]
    by (simp add: firstVisit_fields fid_fragments)
  have f1: "layout s1 = Some ?d1" "draggingId s1 = Some 11"
    "dragPos s1 = Some \<lparr>posX = 100, posY = 50\<rparr>" "maxZRef s1 = 21" "focusedId s1 = None"
    unfolding s1_def
    by (simp_all add: layout_persisted fields_grabbed storage_kept firstVisit_fields fits_session)
  have e2: "step PointerEnd s1 = Inr s2"
    unfolding s2_def using step_PointerEnd_commit[OF f1(2) f1(3)]
    by (simp add: of_layout f1)
  have f2: "layout s2 = Some ?d2" "maxZRef s2 = 22" "focusedId s2 = None"
    unfolding s2_def by (simp_all add: layout_persisted st1 fits_session fields_endDrag f1)
  have e3: "step (PointerDown (fragments ! 4) (MouseEvent 120 110) \<lparr>rectLeft = 100, rectTop = 100\<rparr>)
              s2 = Inr s3"
    unfolding s3_def
    using step_PointerDown_grab[of s2 "fragments ! 4"]
    by (simp add: fid_fragments of_layout f2)
  have f3: "layout s3 = Some ?d3" "draggingId s3 = Some 22" "maxZRef s3 = 23"
    "dragStartRef s3 = Some \<lparr>startX = 120, startY = 110, elemX = 100, elemY = 100\<rparr>"
    unfolding s3_def
    by (simp_all add: layout_persisted fields_grabbed storage_kept st2 fits_session)
  have e4: "step (PointerMove (MouseEvent 270 190)) s3 = Inr s4"
    unfolding s4_def by (simp add: f3)
  have f4: "layout s4 = Some ?d3" "draggingId s4 = Some 22" "maxZRef s4 = 23"
    "dragPos s4 = Some \<lparr>posX = 250, posY = 180\<rparr>"
    unfolding s4_def
    by (simp_all add: handleMove_fields[OF f3(4)] dragPos_handleMove[OF f3(4)] f3)
  have e5: "step PointerEnd s4 = Inr s5"
    unfolding s5_def using step_PointerEnd_commit[OF f4(2) f4(4)]
    by (simp add: of_layout f4 exampleLayout_def)
  have f5: "layout s5 = Some exampleLayout"
    unfolding s5_def by (simp add: layout_persisted st4 fits_example)
  have "storedText s5 = Some (JSON_stringify exampleLayout)"
    unfolding s5_def storedText_def
    by (simp add: fields_endDrag persisted_def st4 fits_example stored_def)
  moreover have "storedText returnVisit = Some (JSON_stringify exampleLayout)"
    by (simp add: storedText_def returnVisit_fields storageWith_def)
  ultimately have t5: "storedText s5 = storedText returnVisit" by simp
  show ?thesis
    by (simp only: run.simps e1 e2 e3 e4 e5 sum.case observe.simps f5 t5)
qed

text \<open>
  What does hold: as long as the counter \<open>maxZRef\<close> is at least every stored z-index
  (\<open>counterCurrent\<close>), every event keeps the layout invariant, and keeps the counter so.
  A mount that reads the loaded layout on its first render starts in such a state.
\<close>

lemma layoutInv_persist:
  assumes ok: "layoutOK s" and cur: "counterCurrent s" and i: "i \<in> set cardIds"
    and ps: "set (map fst ps) \<subseteq> insert i (set (map fst (positionsOf s)))"
  shows "layoutInv \<lparr>positions = ps, zIndexes = objSet i (maxZRef s + 1) (zIndexesOf s),
                    maxZ = maxZRef s + 1\<rparr>"
proof -
  from ok have keys: "set (map fst (positionsOf s)) \<subseteq> set cardIds"
    "set (map fst (zIndexesOf s)) \<subseteq> set cardIds"
    by (auto simp: layoutOK_def of_layout layoutInv_def list_all_iff split: option.splits)
  from cur have vals: "\<forall>v \<in> set (map snd (zIndexesOf s)). v \<le> maxZRef s"
    by (simp add: counterCurrent_def list_all_iff)
  have "\<forall>v \<in> set (map snd (objSet i (maxZRef s + 1) (zIndexesOf s))). v \<le> maxZRef s + 1"
    using values_objSet[of i "maxZRef s + 1" "zIndexesOf s"] vals by fastforce
  moreover have "set (map fst (objSet i (maxZRef s + 1) (zIndexesOf s))) \<subseteq> set cardIds"
    unfolding keys_objSet using keys i by simp
  moreover have "set (map fst ps) \<subseteq> set cardIds" using ps keys i by auto
  ultimately show ?thesis
    by (simp add: layoutInv_def list_all_iff subset_iff)
qed

lemma persisted_keeps:
  assumes ok: "layoutOK s" and cur: "counterCurrent s"
    and inv: "layoutInv d" and m: "maxZRef s \<le> maxZ d"
    and same: "layout s0 = layout s"
  shows "layoutOK (persisted d s0) \<and> counterCurrent (persisted d s0)"
proof (cases "fits (JSON_stringify d) (localStorage (store s0))")
  case True
  with inv show ?thesis
    by (simp add: layoutOK_def counterCurrent_def of_layout layout_persisted layoutInv_def)
next
  case False
  from cur m have "list_all (\<lambda>v. v \<le> maxZ d) (map snd (zIndexesOf s))"
    by (auto simp: counterCurrent_def list_all_iff)
  with False ok same show ?thesis
    by (simp add: layoutOK_def counterCurrent_def of_layout layout_persisted)
qed

lemma layout_invariant_kept_with_current_counter:
  assumes ok: "layoutOK s" and cur: "counterCurrent s" and dr: "dragOK s"
    and card: "onCard ev" and st: "step ev s = Inr s'"
  shows "layoutOK s' \<and> counterCurrent s' \<and> dragOK s'"
proof (cases ev)
  case (PointerDown item e rect)
  show ?thesis
  proof (cases "focusedId s = Some (fid item)")
    case True
    with PointerDown st ok cur dr show ?thesis by simp
  next
    case False
    let ?d = "\<lparr>positions = positionsOf s,
               zIndexes = objSet (fid item) (maxZRef s + 1) (zIndexesOf s),
               maxZ = maxZRef s + 1\<rparr>"
    from card PointerDown have i: "fid item \<in> set cardIds" by (simp add: cardIds_def)
    from step_PointerDown_grab[OF False, of e rect] PointerDown st
    have s': "s' = persisted ?d (grabbed (fid item) e rect s)"
      by (simp del: step.simps)
    have "layoutInv ?d" using ok cur i by (intro layoutInv_persist) auto
    from persisted_keeps[OF ok cur this, of "grabbed (fid item) e rect s"]
    have "layoutOK s' \<and> counterCurrent s'" by (simp add: s')
    moreover have "dragOK s'" using i by (simp add: s' dragOK_def fields_grabbed)
    ultimately show ?thesis by blast
  qed
next
  case (PointerMove m)
  have "layout (handleMove m s) = layout s" "maxZRef (handleMove m s) = maxZRef s"
    "draggingId (handleMove m s) = draggingId s"
    by (cases "dragStartRef s"; simp add: handleMove_def Let_def layout_def)+
  with PointerMove st ok cur dr show ?thesis
    by (auto simp: layoutOK_def counterCurrent_def dragOK_def of_layout split: if_splits)
next
  case PointerEnd
  show ?thesis
  proof (cases "draggingId s")
    case None
    with PointerEnd st ok cur dr show ?thesis by simp
  next
    case (Some i)
    with dr have i: "i \<in> set cardIds" by (simp add: dragOK_def)
    show ?thesis
    proof (cases "dragPos s")
      case None
      with Some PointerEnd st have "s' = endDrag s" by (simp add: handleEnd_eq)
      with ok cur show ?thesis
        by (simp add: layoutOK_def counterCurrent_def dragOK_def of_layout fields_endDrag)
    next
      case (Some p)
      let ?d = "\<lparr>positions = objSet i p (positionsOf s),
                 zIndexes = objSet i (maxZRef s + 1) (zIndexesOf s),
                 maxZ = maxZRef s + 1\<rparr>"
      from step_PointerEnd_commit[OF \<open>draggingId s = Some i\<close> Some] PointerEnd st
      have s': "s' = endDrag (persisted ?d s)" by simp
      have "set (map fst (objSet i p (positionsOf s))) \<subseteq> insert i (set (map fst (positionsOf s)))"
        unfolding keys_objSet by simp
      with ok cur i have "layoutInv ?d" by (intro layoutInv_persist)
      from persisted_keeps[OF ok cur this, of s]
      have "layoutOK (persisted ?d s) \<and> counterCurrent (persisted ?d s)" by simp
      then show ?thesis
        by (simp add: s' layoutOK_def counterCurrent_def dragOK_def of_layout fields_endDrag)
    qed
  qed
next
  case (Click item rect)
  have "layout (handleClick (fid item) rect s) = layout s"
    "maxZRef (handleClick (fid item) rect s) = maxZRef s"
    "draggingId (handleClick (fid item) rect s) = draggingId s"
    by (simp_all add: handleClick_def layout_def)
  with Click st ok cur dr show ?thesis
    by (auto simp: layoutOK_def counterCurrent_def dragOK_def of_layout)
next
  case OverlayClick
  have "layout (closeFocus s) = layout s" "maxZRef (closeFocus s) = maxZRef s"
    "draggingId (closeFocus s) = draggingId s"
    by (simp_all add: closeFocus_def layout_def)
  with OverlayClick st ok cur dr show ?thesis
    by (auto simp: layoutOK_def counterCurrent_def dragOK_def of_layout)
next
  case AnimationFrame
  have "layout (animationFrame s) = layout s" "maxZRef (animationFrame s) = maxZRef s"
    "draggingId (animationFrame s) = draggingId s"
    by (simp_all add: animationFrame_def funpow_openCallback openCallback_def layout_def)
  with AnimationFrame st ok cur dr show ?thesis
    by (auto simp: layoutOK_def counterCurrent_def dragOK_def of_layout)
next
  case (Elapse t)
  have "layout (elapse t s) = layout s" "maxZRef (elapse t s) = maxZRef s"
    "draggingId (elapse t s) = draggingId s"
    by (simp_all add: elapse_def Let_def fold_closeCallback closeCallback_def layout_def)
  with Elapse st ok cur dr show ?thesis
    by (auto simp: layoutOK_def counterCurrent_def dragOK_def of_layout)
qed

lemma client_mount_counter_current:
  assumes "case data st of None \<Rightarrow> True | Some d \<Rightarrow> layoutInv d" and "snapData (snapshot st) = data st"
  shows "layoutOK (mount (getSnapshot st) st) \<and> counterCurrent (mount (getSnapshot st) st)
     \<and> dragOK (mount (getSnapshot st) st)"
  using assms
  by (auto simp: layoutOK_def counterCurrent_def dragOK_def mount_def subscribe_def layout_def
      zIndexesOf_def getSnapshot_def layoutInv_def split: option.splits)

subsection \<open>Every layout of a session is well formed\<close>

lemma fold_objSet_keysAscending:
  "keysAscending acc \<Longrightarrow> keysAscending (fold (\<lambda>(k, v). objSet k v) kvs acc)"
  by (induction kvs arbitrary: acc) (auto simp: keysAscending_objSet)

lemma keysAscending_Nil: "keysAscending []"
  by (simp add: keysAscending_def)

lemma asRecord_keysAscending: "asRecord f j = Some obj \<Longrightarrow> keysAscending obj"
  using fold_objSet_keysAscending[OF keysAscending_Nil]
  by (auto simp: asRecord_def keysAscending_Nil split: json.splits option.splits)

lemma asLayout_wellFormed: "asLayout j = Some d \<Longrightarrow> wellFormed d"
  by (auto simp: asLayout_def wellFormed_def keysAscending_Nil split: json.splits option.splits
      dest: asRecord_keysAscending)

lemma layoutWF_mount: "layoutWF (mount first (layoutStore True ls))"
  by (auto simp: layoutWF_def mount_def layoutStore_def subscribe_def layout_def getSnapshot_def
      loadData_def Let_def split: option.splits sum.splits dest: asLayout_wellFormed)

lemma layoutWF_Of: "layoutWF s \<Longrightarrow> keysAscending (positionsOf s) \<and> keysAscending (zIndexesOf s)"
  by (auto simp: layoutWF_def of_layout wellFormed_def keysAscending_def split: option.splits)

lemma layoutWF_persisted:
  "layoutWF s \<Longrightarrow> wellFormed d \<Longrightarrow> layoutWF (persisted d s)"
  by (simp add: layoutWF_def layout_persisted)

lemma layoutWF_step:
  assumes wf: "layoutWF s" and st: "step ev s = Inr s'"
  shows "layoutWF s'"
proof (cases ev)
  case (PointerDown item e rect)
  have "layoutWF (grabbed (fid item) e rect s)" using wf by (simp add: layoutWF_def)
  moreover have "wellFormed \<lparr>positions = positionsOf s,
      zIndexes = objSet (fid item) (maxZRef s + 1) (zIndexesOf s), maxZ = maxZRef s + 1\<rparr>"
    using layoutWF_Of[OF wf] by (simp add: wellFormed_def keysAscending_objSet)
  ultimately show ?thesis
    using PointerDown st wf
    by (auto simp: handlePointerDown_eq layoutWF_persisted split: if_splits)
next
  case (PointerMove m)
  have "layout (handleMove m s) = layout s"
    by (cases "dragStartRef s") (simp_all add: handleMove_def Let_def layout_def)
  with PointerMove st wf show ?thesis by (auto simp: layoutWF_def split: if_splits)
next
  case PointerEnd
  have "wellFormed \<lparr>positions = objSet i p (positionsOf s),
      zIndexes = objSet i (maxZRef s + 1) (zIndexesOf s), maxZ = maxZRef s + 1\<rparr>" for i p
    using layoutWF_Of[OF wf] by (simp add: wellFormed_def keysAscending_objSet)
  then have "layoutWF (endDrag (persisted \<lparr>positions = objSet i p (positionsOf s),
      zIndexes = objSet i (maxZRef s + 1) (zIndexesOf s), maxZ = maxZRef s + 1\<rparr> s))" for i p
    using layoutWF_persisted[OF wf] by (simp add: layoutWF_def)
  moreover have "layoutWF (endDrag s)" using wf by (simp add: layoutWF_def)
  ultimately show ?thesis
    using PointerEnd st wf
    by (cases "draggingId s"; cases "dragPos s") (auto simp: handleEnd_eq)
next
  case (Click item rect)
  have "layout (handleClick (fid item) rect s) = layout s"
    by (simp add: handleClick_def layout_def)
  with Click st wf show ?thesis by (auto simp: layoutWF_def)
next
  case OverlayClick
  have "layout (closeFocus s) = layout s" by (simp add: closeFocus_def layout_def)
  with OverlayClick st wf show ?thesis by (auto simp: layoutWF_def)
next
  case AnimationFrame
  have "layout (animationFrame s) = layout s"
    by (simp add: animationFrame_def funpow_openCallback openCallback_def layout_def)
  with AnimationFrame st wf show ?thesis by (auto simp: layoutWF_def)
next
  case (Elapse t)
  have "layout (elapse t s) = layout s"
    by (simp add: elapse_def Let_def fold_closeCallback closeCallback_def layout_def)
  with Elapse st wf show ?thesis by (auto simp: layoutWF_def)
qed

lemma reachable_wellFormed: "reachable s \<Longrightarrow> layout s = Some d \<Longrightarrow> wellFormed d"
proof -
  assume "reachable s"
  then have "layoutWF s"
    by (induction rule: reachable.induct) (auto simp: layoutWF_mount intro: layoutWF_step)
  then show "layout s = Some d \<Longrightarrow> wellFormed d" by (simp add: layoutWF_def)
qed

end
